theory Spec2Isabelle
  imports Main "HOL-Library.Word"
begin

unbundle bit_operations_syntax

section \<open>SIMD16u: sixteen unsigned 16-bit lanes\<close>

text \<open>
  A vector register is modelled by the list of its lanes, lane 0 first (the order in which
  the union \<open>Holder\<close> exposes them through \<open>arr\<close>).  The AVX2 backend keeps one
  256-bit register of sixteen lanes; the NEON backend keeps two 128-bit registers \<open>lo\<close>
  and \<open>hi\<close> of eight lanes each, \<open>arr\<close> being \<open>lo\<close> followed by \<open>hi\<close>.
\<close>

type_synonym m256i = "16 word list"
type_synonym uint16x8_t = "16 word list"

definition mm256_min_epu16 :: "m256i \<Rightarrow> m256i \<Rightarrow> m256i" where
  "mm256_min_epu16 a b = map2 min a b"

definition mm256_max_epu16 :: "m256i \<Rightarrow> m256i \<Rightarrow> m256i" where
  "mm256_max_epu16 a b = map2 max a b"

definition mm256_cmpeq_epi16 :: "m256i \<Rightarrow> m256i \<Rightarrow> m256i" where
  "mm256_cmpeq_epi16 a b = map2 (\<lambda>x y. if x = y then 0xFFFF else 0) a b"

text \<open>AVX2 \<open>SIMD16u::max\<close> and \<open>SIMD16u::min\<close>: the pair is (receiver afterwards, returned mask).\<close>

definition max_SIMD16u :: "m256i \<Rightarrow> m256i \<Rightarrow> m256i \<times> m256i" where
  "max_SIMD16u v oper =
     (let m = mm256_max_epu16 v oper;
          eq0 = mm256_cmpeq_epi16 m v
      in (m, eq0))"

definition min_SIMD16u :: "m256i \<Rightarrow> m256i \<Rightarrow> m256i \<times> m256i" where
  "min_SIMD16u v oper =
     (let m = mm256_min_epu16 v oper;
          eq0 = mm256_cmpeq_epi16 m v
      in (m, eq0))"

record Holder =
  lo :: uint16x8_t
  hi :: uint16x8_t

definition arr :: "Holder \<Rightarrow> 16 word list" where
  "arr h = lo h @ hi h"

definition vminq_u16 :: "uint16x8_t \<Rightarrow> uint16x8_t \<Rightarrow> uint16x8_t" where
  "vminq_u16 a b = map2 min a b"

definition vmaxq_u16 :: "uint16x8_t \<Rightarrow> uint16x8_t \<Rightarrow> uint16x8_t" where
  "vmaxq_u16 a b = map2 max a b"

definition vceqq_u16 :: "uint16x8_t \<Rightarrow> uint16x8_t \<Rightarrow> uint16x8_t" where
  "vceqq_u16 a b = map2 (\<lambda>x y. if x = y then 0xFFFF else 0) a b"

text \<open>NEON \<open>SIMD16u::maxmask\<close> and \<open>SIMD16u::minmask\<close>, same convention.\<close>

definition maxmask :: "Holder \<Rightarrow> Holder \<Rightarrow> Holder \<times> Holder" where
  "maxmask v oper =
     (let mlo = vmaxq_u16 (lo v) (lo oper);
          mhi = vmaxq_u16 (hi v) (hi oper);
          eq0lo = vceqq_u16 mlo (lo v);
          eq0hi = vceqq_u16 mhi (hi v)
      in (\<lparr>lo = mlo, hi = mhi\<rparr>, \<lparr>lo = eq0lo, hi = eq0hi\<rparr>))"

definition minmask :: "Holder \<Rightarrow> Holder \<Rightarrow> Holder \<times> Holder" where
  "minmask v oper =
     (let mlo = vminq_u16 (lo v) (lo oper);
          mhi = vminq_u16 (hi v) (hi oper);
          eq0lo = vceqq_u16 mlo (lo v);
          eq0hi = vceqq_u16 mhi (hi v)
      in (\<lparr>lo = mlo, hi = mhi\<rparr>, \<lparr>lo = eq0lo, hi = eq0hi\<rparr>))"

definition lanes16 :: "'a list \<Rightarrow> bool" where
  "lanes16 v = (length v = 16)"

definition holder16 :: "Holder \<Rightarrow> bool" where
  "holder16 h = (length (lo h) = 8 \<and> length (hi h) = 8)"

section \<open>Platform selection\<close>

text \<open>
  Both source files choose a backend by conditional compilation: \<open>ARM\<close> stands for
  \<open>defined(__aarch64__) || defined(__arm__)\<close>, \<open>X86\<close> for the other branch.
\<close>

datatype platform = ARM | X86

section \<open>128-bit vector helpers: sixteen unsigned 8-bit lanes\<close>

type_synonym simd128_t = "8 word list"

definition simd_set1_u8 :: "8 word \<Rightarrow> simd128_t" where
  "simd_set1_u8 val = replicate 16 val"

definition simd_max_u8 :: "simd128_t \<Rightarrow> simd128_t \<Rightarrow> simd128_t" where
  "simd_max_u8 a b = map2 max a b"

definition simd_min_u8 :: "simd128_t \<Rightarrow> simd128_t \<Rightarrow> simd128_t" where
  "simd_min_u8 a b = map2 min a b"

text \<open>
  NEON \<open>makeMask\<close>: the loop \<open>for (int i = 0; i < int(round) - 1 && i < 16; ++i) buf[i] = 0xFF\<close>
  over a zeroed buffer.
\<close>

function makeMask_loop :: "8 word \<Rightarrow> nat \<Rightarrow> 8 word list \<Rightarrow> 8 word list" where
  "makeMask_loop rnd i buf =
     (if int i < int (unat rnd) - 1 \<and> i < 16
      then makeMask_loop rnd (Suc i) (buf[i := 0xFF])
      else buf)"
  by pat_completeness auto
termination
  by (relation "measure (\<lambda>(rnd, i, buf). 16 - i)") auto

declare makeMask_loop.simps [simp del]

text \<open>
  SSE2 \<open>MAX_MASKS\<close>: the initialiser list as written, thirty-two 64-bit values; each
  \<open>__m128i\<close> of the array takes two consecutive ones, the low half first.  A register
  is read as bytes in little-endian order.
\<close>

definition MAX_MASKS_init :: "64 word list" where
  "MAX_MASKS_init =
    [0x0000000000000000, 0x0000000000000000,
     0x00000000000000FF, 0x0000000000000000,
     0x000000000000FFFF, 0x0000000000000000,
     0x0000000000FFFFFF, 0x0000000000000000,
     0x00000000FFFFFFFF, 0x0000000000000000,
     0x000000FFFFFFFFFF, 0x0000000000000000,
     0x0000FFFFFFFFFFFF, 0x0000000000000000,
     0x00FFFFFFFFFFFFFF, 0x0000000000000000,
     - 1, 0x0000000000000000,
     - 1, 0x00000000000000FF,
     - 1, 0x000000000000FFFF,
     - 1, 0x0000000000FFFFFF,
     - 1, 0x00000000FFFFFFFF,
     - 1, 0x000000FFFFFFFFFF,
     - 1, 0x0000FFFFFFFFFFFF,
     - 1, 0x00FFFFFFFFFFFFFF]"

definition bytes_of_u64 :: "64 word \<Rightarrow> 8 word list" where
  "bytes_of_u64 w = map (\<lambda>i. ucast (drop_bit (8 * i) w)) [0..<8]"

definition MAX_MASKS :: "nat \<Rightarrow> simd128_t" where
  "MAX_MASKS k = bytes_of_u64 (MAX_MASKS_init ! (2 * k)) @ bytes_of_u64 (MAX_MASKS_init ! (2 * k + 1))"

text \<open>
  \<open>makeMask\<close>.  On x86 the table has sixteen entries and is indexed by \<open>round - 1\<close>
  without a check; an index outside the table is \<open>None\<close>.
\<close>

definition makeMask :: "platform \<Rightarrow> 8 word \<Rightarrow> simd128_t option" where
  "makeMask pf rnd =
     (case pf of
        ARM \<Rightarrow> Some (makeMask_loop rnd 0 (replicate 16 0))
      | X86 \<Rightarrow>
          (let k = int (unat rnd) - 1
           in if 0 \<le> k \<and> k < 16 then Some (MAX_MASKS (nat k)) else None))"

section \<open>Timetable data consumed by the index\<close>

text \<open>
  \<open>Data\<close> is declared outside the two source files.  The index uses the trip count, the
  stop count of a trip, and the two vectors \<open>routeOfTrip\<close> and \<open>firstTripOfRoute\<close>,
  taken here as the lookups they implement.  Trip and route ids are natural numbers.
\<close>

record Data =
  numberOfTrips :: nat
  numberOfStopsInTrip :: "nat \<Rightarrow> nat"
  routeOfTrip :: "nat \<Rightarrow> nat"
  firstTripOfRoute :: "nat \<Rightarrow> nat"

text \<open>
  Modelled from the spec: \<open>Data::isTrip\<close>, the trip validity predicate, is not in the
  source; the valid trips are the ids below the trip count, one label vector each.
\<close>

definition isTrip :: "Data \<Rightarrow> nat \<Rightarrow> bool" where
  "isTrip d trip = (trip < numberOfTrips d)"

text \<open>
  Modelled from the spec: the invariants of the timetable, which \<open>Data\<close> (not in the
  source) maintains.  Every trip lies in the contiguous id range of its route,
  \<open>[firstTripOfRoute route, firstTripOfRoute (route + 1))\<close>, the range stays inside the
  trips, and the next trip of the same range belongs to the same route and has the same
  number of stops (a route is a set of trips sharing one stop sequence).
\<close>

definition wf_data :: "Data \<Rightarrow> bool" where
  "wf_data d =
     list_all (\<lambda>t.
        firstTripOfRoute d (routeOfTrip d t) \<le> t
      \<and> t < firstTripOfRoute d (routeOfTrip d t + 1)
      \<and> firstTripOfRoute d (routeOfTrip d t + 1) \<le> numberOfTrips d
      \<and> (Suc t < firstTripOfRoute d (routeOfTrip d t + 1) \<longrightarrow>
           routeOfTrip d (Suc t) = routeOfTrip d t
         \<and> numberOfStopsInTrip d (Suc t) = numberOfStopsInTrip d t))
       [0..<numberOfTrips d]"

section \<open>ProfileReachedIndexSIMD\<close>

text \<open>
  \<open>ReachedElement\<close> is the union of one \<open>simd128_t\<close> and \<open>u_int8_t values[16]\<close>: the
  sixteen lanes of the register are the sixteen array entries.
\<close>

record ProfileReachedIndexSIMD =
  data :: Data
  defaultLabels :: "simd128_t list"
  labels :: "simd128_t list"

text \<open>
  The constructor fills every default label with the stop count of its trip, converted to
  \<open>u_int8_t\<close> by the assignment.  The elements of \<open>labels\<close> are default-constructed and
  left uninitialised: their contents are the parameter \<open>uninit\<close>.
\<close>

definition ProfileReachedIndexSIMD_new :: "Data \<Rightarrow> simd128_t list \<Rightarrow> ProfileReachedIndexSIMD" where
  "ProfileReachedIndexSIMD_new d uninit =
     \<lparr>data = d,
      defaultLabels = map (\<lambda>trip. replicate 16 (of_nat (numberOfStopsInTrip d trip))) [0..<numberOfTrips d],
      labels = uninit\<rparr>"

definition clear :: "ProfileReachedIndexSIMD \<Rightarrow> ProfileReachedIndexSIMD" where
  "clear s = s\<lparr>labels := defaultLabels s\<rparr>"

text \<open>
  \<open>getPosition\<close>: \<open>labels[trip].values[round - 1]\<close>.  It is private and unchecked;
  each of its callers below checks the trip and the round before reading.
\<close>

definition getPosition :: "simd128_t list \<Rightarrow> nat \<Rightarrow> 8 word \<Rightarrow> 8 word" where
  "getPosition ls trip rnd = ls ! trip ! (unat rnd - 1)"

text \<open>
  The three assertions of \<open>alreadyReached\<close> and \<open>update\<close> are part of the model: a call
  that violates one has no result (\<open>None\<close>).
\<close>

definition alreadyReached :: "ProfileReachedIndexSIMD \<Rightarrow> nat \<Rightarrow> 8 word \<Rightarrow> 8 word \<Rightarrow> bool option" where
  "alreadyReached s trip position rnd =
     (if isTrip (data s) trip \<and> 0 < rnd \<and> rnd < 16
      then Some (getPosition (labels s) trip rnd \<le> position)
      else None)"

text \<open>
  The loop of \<open>update\<close>: from \<open>tr\<close> while \<open>tr < limit && getPosition(tr, round) > position\<close>,
  take the lane-wise minimum of the label with \<open>FILTER\<close>.  Reading a label beyond the
  vector has no result.
\<close>

function update_loop ::
  "nat \<Rightarrow> 8 word \<Rightarrow> 8 word \<Rightarrow> simd128_t \<Rightarrow> nat \<Rightarrow> simd128_t list \<Rightarrow> simd128_t list option" where
  "update_loop limit position rnd FILTER tr ls =
     (if tr < limit then
        (if tr < length ls then
           (if getPosition ls tr rnd > position
            then update_loop limit position rnd FILTER (Suc tr) (ls[tr := simd_min_u8 (ls ! tr) FILTER])
            else Some ls)
         else None)
      else Some ls)"
  by pat_completeness auto
termination
  by (relation "measure (\<lambda>(limit, position, rnd, FILTER, tr, ls). limit - tr)") auto

declare update_loop.simps [simp del]

definition FILTER_of :: "platform \<Rightarrow> 8 word \<Rightarrow> 8 word \<Rightarrow> simd128_t option" where
  "FILTER_of pf position rnd =
     (case makeMask pf rnd of
        None \<Rightarrow> None
      | Some m \<Rightarrow> Some (simd_max_u8 (simd_set1_u8 position) m))"

definition update ::
  "platform \<Rightarrow> ProfileReachedIndexSIMD \<Rightarrow> nat \<Rightarrow> 8 word \<Rightarrow> 8 word \<Rightarrow> ProfileReachedIndexSIMD option" where
  "update pf s trip position rnd =
     (if isTrip (data s) trip \<and> 0 < rnd \<and> rnd < 16 then
        (case FILTER_of pf position rnd of
           None \<Rightarrow> None
         | Some FILTER \<Rightarrow>
             (case update_loop (firstTripOfRoute (data s) (routeOfTrip (data s) trip + 1))
                     position rnd FILTER trip (labels s) of
                None \<Rightarrow> None
              | Some ls \<Rightarrow> Some (s\<lparr>labels := ls\<rparr>)))
      else None)"

text \<open>
  \<open>operator()\<close> returns a reference to the stored value, unchecked: reading it is
  \<open>getPosition\<close>, writing through it replaces one entry of one label.  An access outside
  the vector or outside the sixteen entries has no result.
\<close>

definition operator_read :: "ProfileReachedIndexSIMD \<Rightarrow> nat \<Rightarrow> 8 word \<Rightarrow> 8 word option" where
  "operator_read s trip rnd =
     (if trip < length (labels s) \<and> 1 \<le> unat rnd \<and> unat rnd \<le> 16
      then Some (getPosition (labels s) trip rnd)
      else None)"

definition operator_write ::
  "ProfileReachedIndexSIMD \<Rightarrow> nat \<Rightarrow> 8 word \<Rightarrow> 8 word \<Rightarrow> ProfileReachedIndexSIMD option" where
  "operator_write s trip rnd v =
     (if trip < length (labels s) \<and> 1 \<le> unat rnd \<and> unat rnd \<le> 16
      then Some (s\<lparr>labels := (labels s)[trip := (labels s ! trip)[unat rnd - 1 := v]]\<rparr>)
      else None)"

text \<open>The shape the C++ types give the label storage: one label per trip, sixteen entries each.\<close>

definition wf_index :: "ProfileReachedIndexSIMD \<Rightarrow> bool" where
  "wf_index s = (length (labels s) = numberOfTrips (data s) \<and> list_all (\<lambda>l. length l = 16) (labels s))"

text \<open>A sequence of \<open>update\<close> calls, each given as (trip, position, round).\<close>

fun updates ::
  "platform \<Rightarrow> ProfileReachedIndexSIMD \<Rightarrow> (nat \<times> 8 word \<times> 8 word) list \<Rightarrow> ProfileReachedIndexSIMD option" where
  "updates pf s [] = Some s"
| "updates pf s (c # cs) =
     (case update pf s (fst c) (fst (snd c)) (snd (snd c)) of
        None \<Rightarrow> None
      | Some s' \<Rightarrow> updates pf s' cs)"

text \<open>
  The reference behaviour of the early-exit property, in the spec's words: the same
  lane-wise minimum applied individually to every trip from the given one to the last
  trip of its route, with no early exit.
\<close>

definition update_every_trip ::
  "platform \<Rightarrow> ProfileReachedIndexSIMD \<Rightarrow> nat \<Rightarrow> 8 word \<Rightarrow> 8 word \<Rightarrow> ProfileReachedIndexSIMD option" where
  "update_every_trip pf s trip position rnd =
     (if isTrip (data s) trip \<and> 0 < rnd \<and> rnd < 16 then
        (case FILTER_of pf position rnd of
           None \<Rightarrow> None
         | Some FILTER \<Rightarrow>
             Some (s\<lparr>labels :=
               fold (\<lambda>tr ls. ls[tr := simd_min_u8 (ls ! tr) FILTER])
                 [trip..<firstTripOfRoute (data s) (routeOfTrip (data s) trip + 1)] (labels s)\<rparr>))
      else None)"

section \<open>Closed forms and invariants used in the proofs\<close>

text \<open>The value of \<open>FILTER\<close> for the entry \<open>k = round - 1\<close>: \<open>0xFF\<close> below \<open>k\<close>, the position from \<open>k\<close> on.\<close>

definition FILTER_lanes :: "nat \<Rightarrow> 8 word \<Rightarrow> simd128_t" where
  "FILTER_lanes k position = map (\<lambda>j. if j < k then 0xFF else position) [0..<16]"

text \<open>A label whose entries do not increase from one entry to the next.\<close>

definition nonincreasing :: "simd128_t \<Rightarrow> bool" where
  "nonincreasing l = (\<forall>i j. i \<le> j \<and> j < 16 \<longrightarrow> l ! j \<le> l ! i)"

definition rounds_inv :: "Data \<Rightarrow> simd128_t list \<Rightarrow> bool" where
  "rounds_inv d ls =
     (length ls = numberOfTrips d \<and> (\<forall>t < numberOfTrips d. length (ls ! t) = 16 \<and> nonincreasing (ls ! t)))"

text \<open>Within a route, the label of the next trip is lane-wise at most the label of a trip.\<close>

definition trips_inv :: "Data \<Rightarrow> simd128_t list \<Rightarrow> bool" where
  "trips_inv d ls =
     (\<forall>t i. t < numberOfTrips d \<and> Suc t < firstTripOfRoute d (routeOfTrip d t + 1) \<and> i < 16
        \<longrightarrow> ls ! Suc t ! i \<le> ls ! t ! i)"

section \<open>aligned_allocator\<close>

text \<open>
  \<open>std::size_t\<close> is a 64-bit word; a pointer is its address, \<open>NULL\<close> being 0.  The
  template parameters enter as \<open>sizeof_T\<close> (the value of \<open>sizeof(T)\<close>) and \<open>Alignment\<close>.
  The platform allocator is a parameter: it maps the call it receives to the pointer it
  returns.
\<close>

datatype alloc_error = length_error | bad_alloc

datatype platform_call =
    aligned_alloc "64 word" "64 word"
  | mm_malloc "64 word" "64 word"

definition max_size :: "64 word \<Rightarrow> 64 word" where
  "max_size sizeof_T = (0 - 1) div sizeof_T"

text \<open>
  The call made once \<open>n\<close> has passed both checks: \<open>std::aligned_alloc(Alignment, aligned_total)\<close>
  on ARM, \<open>_mm_malloc(total, Alignment)\<close> otherwise (where \<open>aligned_total\<close> is computed
  and discarded).
\<close>

definition platform_request :: "platform \<Rightarrow> 64 word \<Rightarrow> 64 word \<Rightarrow> 64 word \<Rightarrow> platform_call" where
  "platform_request pf sizeof_T Alignment n =
     (let total = n * sizeof_T;
          aligned_total = (total + Alignment - 1) AND NOT (Alignment - 1)
      in case pf of
           ARM \<Rightarrow> aligned_alloc Alignment aligned_total
         | X86 \<Rightarrow> mm_malloc total Alignment)"

definition allocate ::
  "platform \<Rightarrow> (platform_call \<Rightarrow> 64 word) \<Rightarrow> 64 word \<Rightarrow> 64 word \<Rightarrow> 64 word \<Rightarrow> alloc_error + 64 word" where
  "allocate pf os sizeof_T Alignment n =
     (if n = 0 then Inr 0
      else if n > max_size sizeof_T then Inl length_error
      else
        (let pv = os (platform_request pf sizeof_T Alignment n)
         in if pv = 0 then Inl bad_alloc else Inr pv))"

section \<open>A concrete timetable\<close>

text \<open>The scenario of the specification: one route with three trips of five stops each.\<close>

definition scenario :: Data where
  "scenario =
     \<lparr>numberOfTrips = 3,
      numberOfStopsInTrip = (\<lambda>trip. 5),
      routeOfTrip = (\<lambda>trip. 0),
      firstTripOfRoute = (\<lambda>route. if route = 0 then 0 else 3)\<rparr>"

definition scenario_index :: ProfileReachedIndexSIMD where
  "scenario_index = clear (ProfileReachedIndexSIMD_new scenario [])"

text \<open>
  Two indexes obtained from the cleared scenario by one write through \<open>operator()\<close>:
  round 1 of trip 0 set to 1, and round 1 of trip 1 set to 0.
\<close>

definition written_first :: ProfileReachedIndexSIMD where
  "written_first = scenario_index\<lparr>labels := [1 # replicate 15 5, replicate 16 5, replicate 16 5]\<rparr>"

definition written_second :: ProfileReachedIndexSIMD where
  "written_second = scenario_index\<lparr>labels := [replicate 16 5, 0 # replicate 15 5, replicate 16 5]\<rparr>"

text \<open>A route with a single trip of 256 stops.\<close>

definition long_trip :: Data where
  "long_trip =
     \<lparr>numberOfTrips = 1,
      numberOfStopsInTrip = (\<lambda>trip. 256),
      routeOfTrip = (\<lambda>trip. 0),
      firstTripOfRoute = (\<lambda>route. if route = 0 then 0 else 1)\<rparr>"

section \<open>The filter of an update\<close>

lemma round_range:
  fixes r :: "8 word"
  assumes "0 < r" "r < 16"
  shows "1 \<le> unat r \<and> unat r \<le> 15"
  using assms by (simp add: word_less_nat_alt)

lemma makeMask_loop_closed:
  "length buf = 16 \<Longrightarrow>
   makeMask_loop rnd i buf =
     map (\<lambda>j. if i \<le> j \<and> j < unat rnd - 1 then 0xFF else buf ! j) [0..<16]"
proof (induction rnd i buf rule: makeMask_loop.induct)
  case (1 rnd i buf)
  show ?case
  proof (cases "int i < int (unat rnd) - 1 \<and> i < 16")
    case True
    then have cond: "i < unat rnd - 1" "i < 16" by linarith+
    have "makeMask_loop rnd i buf = makeMask_loop rnd (Suc i) (buf[i := 0xFF])"
      by (subst makeMask_loop.simps) (simp only: True if_True simp_thms)
    also have "\<dots> = map (\<lambda>j. if Suc i \<le> j \<and> j < unat rnd - 1 then 0xFF else buf[i := 0xFF] ! j) [0..<16]"
      using 1 True by simp
    also have "\<dots> = map (\<lambda>j. if i \<le> j \<and> j < unat rnd - 1 then 0xFF else buf ! j) [0..<16]"
      using cond 1(2) by (intro map_cong refl) (auto simp: nth_list_update)
    finally show ?thesis .
  next
    case False
    then have cond: "\<not> (i < unat rnd - 1 \<and> i < 16)" by linarith
    have "makeMask_loop rnd i buf = buf"
      by (subst makeMask_loop.simps) (simp only: False if_False simp_thms)
    moreover have "buf = map (\<lambda>j. if i \<le> j \<and> j < unat rnd - 1 then 0xFF else buf ! j) [0..<16]"
      using cond 1(2) by (intro nth_equalityI) auto
    ultimately show ?thesis by simp
  qed
qed

lemma makeMask_ARM:
  "makeMask ARM rnd = Some (map (\<lambda>j. if j < unat rnd - 1 then 0xFF else 0) [0..<16])"
  by (simp add: makeMask_def makeMask_loop_closed)



lemma MAX_MASKS_all:
  "list_all (\<lambda>k. MAX_MASKS k = map (\<lambda>j. if j < k then 0xFF else 0) [0..<16]) [0..<16]"
  by code_simp

lemma MAX_MASKS_closed:
  "k < 16 \<Longrightarrow> MAX_MASKS k = map (\<lambda>j. if j < k then 0xFF else 0) [0..<16]"
  using MAX_MASKS_all by (simp add: list_all_iff)

lemma makeMask_X86:
  fixes rnd :: "8 word"
  assumes "0 < rnd" "rnd < 16"
  shows "makeMask X86 rnd = Some (map (\<lambda>j. if j < unat rnd - 1 then 0xFF else 0) [0..<16])"
proof -
  have r: "1 \<le> unat rnd" "unat rnd \<le> 15" using round_range [OF assms] by simp_all
  then have k: "0 \<le> int (unat rnd) - 1" "int (unat rnd) - 1 < 16" "nat (int (unat rnd) - 1) = unat rnd - 1"
    by linarith+
  have "unat rnd - 1 < 16" using r by linarith
  then show ?thesis
    unfolding makeMask_def Let_def using k by (simp add: MAX_MASKS_closed)
qed

lemma byte_le_FF: "(x :: 8 word) \<le> 0xFF"
proof -
  have "(0xFF :: 8 word) = - 1" by simp
  then show ?thesis by (simp only: word_n1_ge)
qed

lemma FILTER_of_closed:
  fixes rnd :: "8 word"
  assumes "0 < rnd" "rnd < 16"
  shows "FILTER_of pf position rnd = Some (FILTER_lanes (unat rnd - 1) position)"
proof -
  have m: "makeMask pf rnd = Some (map (\<lambda>j. if j < unat rnd - 1 then 0xFF else 0) [0..<16])"
    by (cases pf) (simp_all add: makeMask_ARM makeMask_X86 [OF assms])
  have "simd_max_u8 (simd_set1_u8 position) (map (\<lambda>j. if j < unat rnd - 1 then 0xFF else 0) [0..<16])
      = map (\<lambda>j. if j < unat rnd - 1 then 0xFF else position) [0..<16]"
    by (intro nth_equalityI) (auto simp: simd_max_u8_def simd_set1_u8_def max_absorb2 byte_le_FF)
  with m show ?thesis by (simp add: FILTER_of_def FILTER_lanes_def)
qed

section \<open>Lane-wise extremum with mask\<close>

lemma min_lane_mask:
  fixes x y :: "16 word"
  shows "(if min x y = x then 0xFFFF else 0) = (if x \<le> y then 0xFFFF else (0 :: 16 word))"
  by (simp add: min_def)

lemma max_lane_mask:
  fixes x y :: "16 word"
  shows "(if max x y = x then 0xFFFF else 0) = (if y \<le> x then 0xFFFF else (0 :: 16 word))"
  by (auto simp: max_def)

lemma min_SIMD16u_lane:
  assumes "length a = 16" "length b = 16" "i < 16"
  shows "fst (min_SIMD16u a b) ! i = min (a ! i) (b ! i)"
    and "snd (min_SIMD16u a b) ! i = (if a ! i \<le> b ! i then 0xFFFF else 0)"
  using assms
  by (simp_all add: Let_def min_SIMD16u_def mm256_min_epu16_def mm256_cmpeq_epi16_def min_lane_mask)

lemma max_SIMD16u_lane:
  assumes "length a = 16" "length b = 16" "i < 16"
  shows "fst (max_SIMD16u a b) ! i = max (a ! i) (b ! i)"
    and "snd (max_SIMD16u a b) ! i = (if b ! i \<le> a ! i then 0xFFFF else 0)"
  using assms
  by (simp_all add: Let_def max_SIMD16u_def mm256_max_epu16_def mm256_cmpeq_epi16_def max_lane_mask)

lemma minmask_lane:
  assumes "holder16 a" "holder16 b" "i < 16"
  shows "arr (fst (minmask a b)) ! i = min (arr a ! i) (arr b ! i)"
    and "arr (snd (minmask a b)) ! i = (if arr a ! i \<le> arr b ! i then 0xFFFF else 0)"
  using assms
  by (simp_all add: Let_def holder16_def minmask_def arr_def vminq_u16_def vceqq_u16_def
      nth_append min_lane_mask)

lemma maxmask_lane:
  assumes "holder16 a" "holder16 b" "i < 16"
  shows "arr (fst (maxmask a b)) ! i = max (arr a ! i) (arr b ! i)"
    and "arr (snd (maxmask a b)) ! i = (if arr b ! i \<le> arr a ! i then 0xFFFF else 0)"
  using assms
  by (simp_all add: Let_def holder16_def maxmask_def arr_def vmaxq_u16_def vceqq_u16_def
      nth_append max_lane_mask)

text \<open>
  Claim C6.  For sixteen-lane vectors \<open>a\<close> (receiver) and \<open>b\<close> (operand), on both
  backends: the lane-wise minimum leaves \<open>min a\<^sub>i b\<^sub>i\<close> in every lane of the receiver
  and returns a mask whose lane is all ones (\<open>0xFFFF\<close>) exactly when \<open>a\<^sub>i \<le> b\<^sub>i\<close> and
  all zeros otherwise; the lane-wise maximum does the same with \<open>max\<close> and \<open>a\<^sub>i \<ge> b\<^sub>i\<close>.
\<close>

theorem C6_minmax_mask:
  assumes "lanes16 a" "lanes16 b" "holder16 ha" "holder16 hb" "i < 16"
  shows "fst (min_SIMD16u a b) ! i = min (a ! i) (b ! i)
       \<and> snd (min_SIMD16u a b) ! i = (if a ! i \<le> b ! i then 0xFFFF else 0)
       \<and> fst (max_SIMD16u a b) ! i = max (a ! i) (b ! i)
       \<and> snd (max_SIMD16u a b) ! i = (if a ! i \<ge> b ! i then 0xFFFF else 0)
       \<and> arr (fst (minmask ha hb)) ! i = min (arr ha ! i) (arr hb ! i)
       \<and> arr (snd (minmask ha hb)) ! i = (if arr ha ! i \<le> arr hb ! i then 0xFFFF else 0)
       \<and> arr (fst (maxmask ha hb)) ! i = max (arr ha ! i) (arr hb ! i)
       \<and> arr (snd (maxmask ha hb)) ! i = (if arr ha ! i \<ge> arr hb ! i then 0xFFFF else 0)"
  using assms min_SIMD16u_lane [of a b i] max_SIMD16u_lane [of a b i]
    minmask_lane [of ha hb i] maxmask_lane [of ha hb i]
  by (simp add: lanes16_def)

theorem C6_minmax_mask_witness:
  "lanes16 [1, 2, 3, 4, 5, 6, 7, 8, 9, 10, 11, 12, 13, 14, 15, 16 :: 16 word]
 \<and> lanes16 [16, 15, 14, 13, 12, 11, 10, 9, 8, 7, 6, 5, 4, 3, 2, 1 :: 16 word]
 \<and> holder16 \<lparr>lo = [1, 2, 3, 4, 5, 6, 7, 8], hi = [9, 10, 11, 12, 13, 14, 15, 16]\<rparr>
 \<and> holder16 \<lparr>lo = [16, 15, 14, 13, 12, 11, 10, 9], hi = [8, 7, 6, 5, 4, 3, 2, 1]\<rparr>
 \<and> (9 :: nat) < 16
 \<and> fst (min_SIMD16u [1, 2, 3, 4, 5, 6, 7, 8, 9, 10, 11, 12, 13, 14, 15, 16]
                     [16, 15, 14, 13, 12, 11, 10, 9, 8, 7, 6, 5, 4, 3, 2, 1]) ! 9 = 7
 \<and> snd (min_SIMD16u [1, 2, 3, 4, 5, 6, 7, 8, 9, 10, 11, 12, 13, 14, 15, 16]
                     [16, 15, 14, 13, 12, 11, 10, 9, 8, 7, 6, 5, 4, 3, 2, 1]) ! 9 = 0
 \<and> arr (fst (maxmask \<lparr>lo = [1, 2, 3, 4, 5, 6, 7, 8], hi = [9, 10, 11, 12, 13, 14, 15, 16]\<rparr>
                      \<lparr>lo = [16, 15, 14, 13, 12, 11, 10, 9], hi = [8, 7, 6, 5, 4, 3, 2, 1]\<rparr>)) ! 9 = 10
 \<and> arr (snd (maxmask \<lparr>lo = [1, 2, 3, 4, 5, 6, 7, 8], hi = [9, 10, 11, 12, 13, 14, 15, 16]\<rparr>
                      \<lparr>lo = [16, 15, 14, 13, 12, 11, 10, 9], hi = [8, 7, 6, 5, 4, 3, 2, 1]\<rparr>)) ! 9 = 0xFFFF"
  using C6_minmax_mask [of "[1, 2, 3, 4, 5, 6, 7, 8, 9, 10, 11, 12, 13, 14, 15, 16]"
      "[16, 15, 14, 13, 12, 11, 10, 9, 8, 7, 6, 5, 4, 3, 2, 1]"
      "\<lparr>lo = [1, 2, 3, 4, 5, 6, 7, 8], hi = [9, 10, 11, 12, 13, 14, 15, 16]\<rparr>"
      "\<lparr>lo = [16, 15, 14, 13, 12, 11, 10, 9], hi = [8, 7, 6, 5, 4, 3, 2, 1]\<rparr>" 9]
  by (simp add: lanes16_def holder16_def arr_def)

section \<open>update loop\<close>

lemma simd_min_FILTER_length:
  "length l = 16 \<Longrightarrow> length (simd_min_u8 l (FILTER_lanes k p)) = 16"
  by (simp add: simd_min_u8_def FILTER_lanes_def)

lemma simd_min_FILTER_nth:
  "length l = 16 \<Longrightarrow> i < 16 \<Longrightarrow>
   simd_min_u8 l (FILTER_lanes k p) ! i = (if i < k then l ! i else min (l ! i) p)"
  by (simp add: simd_min_u8_def FILTER_lanes_def min_absorb1 byte_le_FF)

lemma simd_min_FILTER_le:
  "length l = 16 \<Longrightarrow> i < 16 \<Longrightarrow> simd_min_u8 l (FILTER_lanes k p) ! i \<le> l ! i"
  by (simp add: simd_min_FILTER_nth)

lemma simd_min_FILTER_nonincreasing:
  assumes "length l = 16" "nonincreasing l"
  shows "nonincreasing (simd_min_u8 l (FILTER_lanes k p))"
  unfolding nonincreasing_def
proof (intro allI impI)
  fix i j :: nat assume ij: "i \<le> j \<and> j < 16"
  then have le: "l ! j \<le> l ! i" using assms(2) by (simp add: nonincreasing_def)
  from ij have "i < 16" "j < 16" by simp_all
  then show "simd_min_u8 l (FILTER_lanes k p) ! j \<le> simd_min_u8 l (FILTER_lanes k p) ! i"
    using le ij assms(1) by (auto simp: simd_min_FILTER_nth min_le_iff_disj)
qed

lemma simd_min_FILTER_id:
  assumes "length l = 16" "\<forall>i. k \<le> i \<and> i < 16 \<longrightarrow> l ! i \<le> p"
  shows "simd_min_u8 l (FILTER_lanes k p) = l"
  using assms by (intro nth_equalityI) (auto simp: simd_min_FILTER_length simd_min_FILTER_nth min_absorb1)

text \<open>What the loop returns: the labels from \<open>tr\<close> up to an exit point get the minimum.\<close>

lemma update_loop_char:
  assumes "update_loop limit p rnd F tr ls = Some ls'"
  shows "\<exists>k. tr \<le> k \<and> (k \<le> limit \<or> k = tr) \<and> length ls' = length ls
           \<and> (\<forall>j. tr \<le> j \<and> j < k \<longrightarrow> j < length ls \<and> p < getPosition ls j rnd)
           \<and> (\<forall>j < length ls. ls' ! j = (if tr \<le> j \<and> j < k then simd_min_u8 (ls ! j) F else ls ! j))
           \<and> (k < limit \<longrightarrow> k < length ls \<and> getPosition ls k rnd \<le> p)"
  using assms
proof (induction limit p rnd F tr ls rule: update_loop.induct)
  case (1 limit p rnd F tr ls)
  show ?case
  proof (cases "tr < limit \<and> tr < length ls \<and> p < getPosition ls tr rnd")
    case True
    let ?ls1 = "ls[tr := simd_min_u8 (ls ! tr) F]"
    from True "1.prems" have run: "update_loop limit p rnd F (Suc tr) ?ls1 = Some ls'"
      by (subst (asm) update_loop.simps) simp
    from "1.IH" [OF _ _ _ run] True obtain k where k:
      "Suc tr \<le> k" "k \<le> limit \<or> k = Suc tr" "length ls' = length ?ls1"
      "\<forall>j. Suc tr \<le> j \<and> j < k \<longrightarrow> j < length ?ls1 \<and> p < getPosition ?ls1 j rnd"
      "\<forall>j < length ?ls1. ls' ! j = (if Suc tr \<le> j \<and> j < k then simd_min_u8 (?ls1 ! j) F else ?ls1 ! j)"
      "k < limit \<longrightarrow> k < length ?ls1 \<and> getPosition ?ls1 k rnd \<le> p"
      by blast
    have other: "\<And>j. j \<noteq> tr \<Longrightarrow> getPosition ?ls1 j rnd = getPosition ls j rnd"
      by (simp add: getPosition_def)
    have "tr \<le> k" using k(1) by simp
    moreover have "k \<le> limit \<or> k = tr" using k(2) True by auto
    moreover have "length ls' = length ls" using k(3) by simp
    moreover have "\<forall>j. tr \<le> j \<and> j < k \<longrightarrow> j < length ls \<and> p < getPosition ls j rnd"
    proof (intro allI impI)
      fix j assume j: "tr \<le> j \<and> j < k"
      show "j < length ls \<and> p < getPosition ls j rnd"
      proof (cases "j = tr")
        case True' : True
        then show ?thesis using True by simp
      next
        case False
        then have "Suc tr \<le> j \<and> j < k" using j by simp
        with k(4) have "j < length ?ls1 \<and> p < getPosition ?ls1 j rnd" by blast
        then show ?thesis using other [OF False] by simp
      qed
    qed
    moreover have "\<forall>j < length ls. ls' ! j = (if tr \<le> j \<and> j < k then simd_min_u8 (ls ! j) F else ls ! j)"
    proof (intro allI impI)
      fix j assume j: "j < length ls"
      show "ls' ! j = (if tr \<le> j \<and> j < k then simd_min_u8 (ls ! j) F else ls ! j)"
      proof (cases "j = tr")
        case True' : True
        then show ?thesis using k(5) k(1) j by simp
      next
        case False
        then show ?thesis using k(5) j by auto
      qed
    qed
    moreover have "k < limit \<longrightarrow> k < length ls \<and> getPosition ls k rnd \<le> p"
      using k(6) k(1) other [of k] by simp
    ultimately show ?thesis by blast
  next
    case False
    with "1.prems" have "ls' = ls" "tr < limit \<longrightarrow> tr < length ls \<and> getPosition ls tr rnd \<le> p"
      by (subst (asm) update_loop.simps, auto split: if_splits)+
    then show ?thesis by (intro exI [of _ tr]) auto
  qed
qed

section \<open>One update call\<close>

lemma update_SomeD:
  assumes "update pf s trip p rnd = Some s'"
  shows "isTrip (data s) trip" and "0 < rnd" and "rnd < 16"
    and "update_loop (firstTripOfRoute (data s) (routeOfTrip (data s) trip + 1)) p rnd
           (FILTER_lanes (unat rnd - 1) p) trip (labels s) = Some (labels s')"
    and "data s' = data s" and "defaultLabels s' = defaultLabels s"
proof -
  from assms show a: "isTrip (data s) trip" "0 < rnd" "rnd < 16"
    by (auto simp: update_def split: if_splits)
  from assms a
  show "update_loop (firstTripOfRoute (data s) (routeOfTrip (data s) trip + 1)) p rnd
           (FILTER_lanes (unat rnd - 1) p) trip (labels s) = Some (labels s')"
    and "data s' = data s" and "defaultLabels s' = defaultLabels s"
    by (auto simp: update_def FILTER_of_closed split: option.splits)
qed

lemma update_lanes:
  assumes "update pf s trip p rnd = Some s'" "j < length (labels s)"
  shows "labels s' ! j = labels s ! j
       \<or> labels s' ! j = simd_min_u8 (labels s ! j) (FILTER_lanes (unat rnd - 1) p)"
  using update_loop_char [OF update_SomeD(4) [OF assms(1)]] assms(2) by auto

lemma update_length:
  assumes "update pf s trip p rnd = Some s'"
  shows "length (labels s') = length (labels s)"
  using update_loop_char [OF update_SomeD(4) [OF assms(1)]] by auto

lemma update_wf_index:
  assumes "wf_index s" "update pf s trip p rnd = Some s'"
  shows "wf_index s'"
proof -
  have len: "length (labels s') = length (labels s)" by (rule update_length [OF assms(2)])
  have "length (labels s' ! j) = 16" if "j < length (labels s)" for j
  proof -
    have "length (labels s ! j) = 16" using assms(1) that by (simp add: wf_index_def list_all_length)
    then show ?thesis using update_lanes [OF assms(2) that] by (auto simp: simd_min_FILTER_length)
  qed
  then show ?thesis
    using assms(1) len update_SomeD(5) [OF assms(2)] by (simp add: wf_index_def list_all_length)
qed

lemma update_lane_le:
  assumes "wf_index s" "update pf s trip p rnd = Some s'" "j < length (labels s)" "i < 16"
  shows "labels s' ! j ! i \<le> labels s ! j ! i"
proof -
  have "length (labels s ! j) = 16" using assms(1,3) by (simp add: wf_index_def list_all_length)
  then show ?thesis using update_lanes [OF assms(2,3)] assms(4) by (auto simp: simd_min_FILTER_le)
qed

lemma updates_lane_le:
  "wf_index s \<Longrightarrow> updates pf s cs = Some s' \<Longrightarrow> j < length (labels s) \<Longrightarrow> i < 16
   \<Longrightarrow> labels s' ! j ! i \<le> labels s ! j ! i"
proof (induction cs arbitrary: s)
  case Nil
  then show ?case by simp
next
  case (Cons c cs)
  from Cons.prems(2) obtain s1 where
    s1: "update pf s (fst c) (fst (snd c)) (snd (snd c)) = Some s1" and rest: "updates pf s1 cs = Some s'"
    by (auto split: option.splits)
  have "labels s' ! j ! i \<le> labels s1 ! j ! i"
    using Cons.IH [OF update_wf_index [OF Cons.prems(1) s1] rest] Cons.prems(3,4) update_length [OF s1]
    by simp
  also have "\<dots> \<le> labels s ! j ! i" by (rule update_lane_le [OF Cons.prems(1) s1 Cons.prems(3,4)])
  finally show ?case .
qed

lemma round_slot:
  fixes rnd :: "8 word"
  assumes "0 < rnd" "rnd < 16"
  shows "unat rnd - 1 < 15"
  using round_range [OF assms] by linarith

lemma updates_frame:
  "updates pf s cs = Some s' \<Longrightarrow> data s' = data s \<and> defaultLabels s' = defaultLabels s"
proof (induction cs arbitrary: s)
  case Nil
  then show ?case by simp
next
  case (Cons c cs)
  from Cons.prems obtain s1 where
    s1: "update pf s (fst c) (fst (snd c)) (snd (snd c)) = Some s1" and rest: "updates pf s1 cs = Some s'"
    by (auto split: option.splits)
  show ?case using Cons.IH [OF rest] update_SomeD(5,6) [OF s1] by simp
qed

text \<open>A run is determined by the labels it leaves.\<close>

lemma updates_eqI:
  assumes "map_option labels (updates pf s cs) = Some L"
  shows "updates pf s cs = Some (s\<lparr>labels := L\<rparr>)"
proof -
  from assms obtain s' where s': "updates pf s cs = Some s'" and L: "labels s' = L"
    by (cases "updates pf s cs") auto
  have "s' = s\<lparr>labels := L\<rparr>" using updates_frame [OF s'] L by simp
  with s' show ?thesis by simp
qed

lemma scenario_data:
  "data scenario_index = scenario" "numberOfTrips scenario = 3"
  by (simp_all add: scenario_index_def clear_def ProfileReachedIndexSIMD_new_def scenario_def)

lemma scenario_index_facts:
  "wf_data scenario" "wf_index scenario_index"
  "labels scenario_index = replicate 3 (replicate 16 5)"
  by code_simp+

text \<open>
  Claim C3.  Across any sequence of \<open>update\<close> calls (no \<open>clear\<close> in between), the stored
  position of every trip at every round is at most what it was before the sequence; a
  single call is the sequence of length one.
\<close>

theorem C3_positions_never_increase:
  assumes "wf_index s" and "updates pf s calls = Some s'"
    and "isTrip (data s) trip" and "0 < rnd" and "rnd < 16"
  shows "getPosition (labels s') trip rnd \<le> getPosition (labels s) trip rnd"
proof -
  have "trip < length (labels s)" using assms(1,3) by (simp add: wf_index_def isTrip_def)
  moreover have "unat rnd - 1 < 16" using round_slot [OF assms(4,5)] by simp
  ultimately show ?thesis
    unfolding getPosition_def by (rule updates_lane_le [OF assms(1,2)])
qed

theorem C3_positions_never_increase_witness:
  "wf_index scenario_index
 \<and> updates X86 scenario_index [(1, 2, 3), (0, 1, 2)]
     = Some (scenario_index\<lparr>labels := replicate 3 (5 # replicate 15 1)\<rparr>)
 \<and> isTrip (data scenario_index) 1 \<and> (0 :: 8 word) < 3 \<and> (3 :: 8 word) < 16
 \<and> getPosition (replicate 3 (5 # replicate 15 1)) 1 3 \<le> getPosition (replicate 3 (replicate 16 5)) 1 3"
proof -
  have run: "updates X86 scenario_index [(1, 2, 3), (0, 1, 2)]
      = Some (scenario_index\<lparr>labels := replicate 3 (5 # replicate 15 1)\<rparr>)"
    by (rule updates_eqI) code_simp
  have t: "isTrip (data scenario_index) 1" by (simp add: scenario_data isTrip_def)
  have r: "(0 :: 8 word) < 3" "(3 :: 8 word) < 16" by simp_all
  show ?thesis
    using C3_positions_never_increase [OF scenario_index_facts(2) run t r] run t
    by (simp add: scenario_index_facts)
qed

lemma update_unchanged:
  assumes "wf_index s" and "isTrip (data s) trip" and "0 < rnd" and "rnd < 16"
    and "getPosition (labels s) trip rnd \<le> position"
  shows "update pf s trip position rnd = Some s"
proof -
  have "trip < length (labels s)" using assms(1,2) by (simp add: wf_index_def isTrip_def)
  moreover have "\<not> position < getPosition (labels s) trip rnd" using assms(5) by simp
  ultimately have "update_loop limit position rnd F trip (labels s) = Some (labels s)" for limit F
    by (subst update_loop.simps) simp
  then show ?thesis
    using assms(2,3,4) by (simp add: update_def FILTER_of_closed)
qed

text \<open>
  Claim C10.  If the stored position of a valid trip at a round in \<open>[1,15]\<close> is already
  at most the given position, \<open>update\<close> returns the index as it was: no entry of any trip
  is modified.
\<close>

theorem C10_update_noop:
  assumes "wf_index s" and "isTrip (data s) trip" and "0 < rnd" and "rnd < 16"
    and "getPosition (labels s) trip rnd \<le> position"
  shows "update pf s trip position rnd = Some s"
  using assms by (rule update_unchanged)

theorem C10_update_noop_witness:
  "wf_index scenario_index \<and> isTrip (data scenario_index) 0 \<and> (0 :: 8 word) < 1 \<and> (1 :: 8 word) < 16
 \<and> getPosition (labels scenario_index) 0 1 \<le> 5
 \<and> update ARM scenario_index 0 5 1 = Some scenario_index"
proof -
  have t: "isTrip (data scenario_index) 0" by (simp add: scenario_data isTrip_def)
  have r: "(0 :: 8 word) < 1" "(1 :: 8 word) < 16" by simp_all
  have g: "getPosition (labels scenario_index) 0 1 \<le> 5"
    by (simp add: scenario_index_facts getPosition_def)
  show ?thesis
    using C10_update_noop [OF scenario_index_facts(2) t r g] t g
    by (simp add: scenario_index_facts)
qed

section \<open>Invariants of the states reached from \<open>clear\<close>\<close>

lemma clear_labels:
  "labels (clear (ProfileReachedIndexSIMD_new d uninit))
     = map (\<lambda>trip. replicate 16 (of_nat (numberOfStopsInTrip d trip))) [0..<numberOfTrips d]"
  and clear_data: "data (clear (ProfileReachedIndexSIMD_new d uninit)) = d"
  by (simp_all add: clear_def ProfileReachedIndexSIMD_new_def)

lemma rounds_inv_clear:
  "rounds_inv d (labels (clear (ProfileReachedIndexSIMD_new d uninit)))"
  by (simp add: rounds_inv_def clear_labels nonincreasing_def)

lemma rounds_inv_update:
  assumes "rounds_inv (data s) (labels s)" "update pf s trip p rnd = Some s'"
  shows "rounds_inv (data s) (labels s')"
proof -
  have len: "length (labels s') = length (labels s)" by (rule update_length [OF assms(2)])
  have "length (labels s' ! t) = 16 \<and> nonincreasing (labels s' ! t)" if "t < numberOfTrips (data s)" for t
  proof -
    from assms(1) that have old: "t < length (labels s)" "length (labels s ! t) = 16" "nonincreasing (labels s ! t)"
      by (simp_all add: rounds_inv_def)
    from update_lanes [OF assms(2) old(1)] show ?thesis
      using old by (auto simp: simd_min_FILTER_length simd_min_FILTER_nonincreasing)
  qed
  then show ?thesis using assms(1) len by (simp add: rounds_inv_def)
qed

lemma rounds_inv_updates:
  "rounds_inv (data s) (labels s) \<Longrightarrow> updates pf s cs = Some s' \<Longrightarrow> rounds_inv (data s) (labels s')"
proof (induction cs arbitrary: s)
  case Nil
  then show ?case by simp
next
  case (Cons c cs)
  from Cons.prems(2) obtain s1 where
    s1: "update pf s (fst c) (fst (snd c)) (snd (snd c)) = Some s1" and rest: "updates pf s1 cs = Some s'"
    by (auto split: option.splits)
  have d: "data s1 = data s" by (rule update_SomeD(5) [OF s1])
  have "rounds_inv (data s1) (labels s1)" using rounds_inv_update [OF Cons.prems(1) s1] d by simp
  from Cons.IH [OF this rest] d show ?case by simp
qed

lemma rounds_inv_wf_index: "rounds_inv (data s) (labels s) \<Longrightarrow> wf_index s"
  by (simp add: rounds_inv_def wf_index_def list_all_length)

text \<open>
  Claim C9.  In every state reached from \<open>clear()\<close> by a sequence of \<open>update\<close> calls, the
  stored positions of a valid trip do not increase with the round: for every round
  \<open>r\<close> in \<open>[1,14]\<close> the position at round \<open>r + 1\<close> is at most the position at round \<open>r\<close>.
\<close>

theorem C9_rounds_nonincreasing:
  assumes "updates pf (clear (ProfileReachedIndexSIMD_new d uninit)) calls = Some s"
    and "isTrip d trip" and "0 < rnd" and "rnd < 15"
  shows "getPosition (labels s) trip (rnd + 1) \<le> getPosition (labels s) trip rnd"
proof -
  have "rounds_inv d (labels s)"
    using rounds_inv_updates [OF _ assms(1)] rounds_inv_clear [of d uninit] by (simp add: clear_data)
  then have mono: "nonincreasing (labels s ! trip)"
    using assms(2) by (simp add: rounds_inv_def isTrip_def)
  have r: "1 \<le> unat rnd" "unat rnd < 15"
    using assms(3,4) by (simp_all add: word_less_nat_alt)
  then have "unat (rnd + 1) = unat rnd + 1"
    by (simp add: unat_word_ariths)
  then have "unat (rnd + 1) - 1 = Suc (unat rnd - 1)" using r by simp
  moreover have "labels s ! trip ! Suc (unat rnd - 1) \<le> labels s ! trip ! (unat rnd - 1)"
    using mono r unfolding nonincreasing_def by (auto simp del: One_nat_def)
  ultimately show ?thesis by (simp add: getPosition_def)
qed

theorem C9_rounds_nonincreasing_witness:
  "updates ARM (clear (ProfileReachedIndexSIMD_new scenario [])) [(1, 3, 4), (0, 2, 5)]
     = Some (clear (ProfileReachedIndexSIMD_new scenario [])
         \<lparr>labels := [[5, 5, 5, 5, 2, 2, 2, 2, 2, 2, 2, 2, 2, 2, 2, 2],
                     [5, 5, 5, 3, 2, 2, 2, 2, 2, 2, 2, 2, 2, 2, 2, 2],
                     [5, 5, 5, 3, 2, 2, 2, 2, 2, 2, 2, 2, 2, 2, 2, 2]]\<rparr>)
 \<and> isTrip scenario 1 \<and> (0 :: 8 word) < 4 \<and> (4 :: 8 word) < 15
 \<and> getPosition [[5, 5, 5, 5, 2, 2, 2, 2, 2, 2, 2, 2, 2, 2, 2, 2],
                 [5, 5, 5, 3, 2, 2, 2, 2, 2, 2, 2, 2, 2, 2, 2, 2],
                 [5, 5, 5, 3, 2, 2, 2, 2, 2, 2, 2, 2, 2, 2, 2, 2]] 1 (4 + 1)
   \<le> getPosition [[5, 5, 5, 5, 2, 2, 2, 2, 2, 2, 2, 2, 2, 2, 2, 2],
                 [5, 5, 5, 3, 2, 2, 2, 2, 2, 2, 2, 2, 2, 2, 2, 2],
                 [5, 5, 5, 3, 2, 2, 2, 2, 2, 2, 2, 2, 2, 2, 2, 2]] 1 4"
proof -
  have run: "updates ARM (clear (ProfileReachedIndexSIMD_new scenario [])) [(1, 3, 4), (0, 2, 5)]
     = Some (clear (ProfileReachedIndexSIMD_new scenario [])
         \<lparr>labels := [[5, 5, 5, 5, 2, 2, 2, 2, 2, 2, 2, 2, 2, 2, 2, 2],
                     [5, 5, 5, 3, 2, 2, 2, 2, 2, 2, 2, 2, 2, 2, 2, 2],
                     [5, 5, 5, 3, 2, 2, 2, 2, 2, 2, 2, 2, 2, 2, 2, 2]]\<rparr>)"
    by (rule updates_eqI) code_simp
  have t: "isTrip scenario 1" by (simp add: scenario_data isTrip_def)
  have r: "(0 :: 8 word) < 4" "(4 :: 8 word) < 15" by simp_all
  show ?thesis
    using C9_rounds_nonincreasing [OF run t r] run t by simp
qed

section \<open>Trips of one route\<close>

lemma wf_dataD:
  assumes "wf_data d" "t < numberOfTrips d"
  shows "firstTripOfRoute d (routeOfTrip d t) \<le> t"
    and "t < firstTripOfRoute d (routeOfTrip d t + 1)"
    and "firstTripOfRoute d (routeOfTrip d t + 1) \<le> numberOfTrips d"
    and "Suc t < firstTripOfRoute d (routeOfTrip d t + 1) \<Longrightarrow> routeOfTrip d (Suc t) = routeOfTrip d t"
    and "Suc t < firstTripOfRoute d (routeOfTrip d t + 1) \<Longrightarrow> numberOfStopsInTrip d (Suc t) = numberOfStopsInTrip d t"
  using assms by (simp_all add: wf_data_def list_all_iff)

lemma route_segment:
  assumes "wf_data d" "t < numberOfTrips d"
  shows "t \<le> j \<Longrightarrow> j < firstTripOfRoute d (routeOfTrip d t + 1)
         \<Longrightarrow> routeOfTrip d j = routeOfTrip d t \<and> j < numberOfTrips d"
proof (induction j)
  case 0
  then show ?case using assms(2) by simp
next
  case (Suc j)
  show ?case
  proof (cases "t = Suc j")
    case True
    then show ?thesis using assms(2) by simp
  next
    case False
    then have "t \<le> j" "j < firstTripOfRoute d (routeOfTrip d t + 1)" using Suc.prems by simp_all
    from Suc.IH [OF this] have j: "routeOfTrip d j = routeOfTrip d t" "j < numberOfTrips d" by simp_all
    have "Suc j < firstTripOfRoute d (routeOfTrip d j + 1)" using Suc.prems(2) j(1) by simp
    from wf_dataD(4) [OF assms(1) j(2) this] wf_dataD(3) [OF assms(1) assms(2)] Suc.prems(2) j(1)
    show ?thesis by simp
  qed
qed

lemma trips_inv_clear:
  assumes "wf_data d"
  shows "trips_inv d (labels (clear (ProfileReachedIndexSIMD_new d uninit)))"
  unfolding trips_inv_def
proof (intro allI impI)
  fix t i :: nat
  assume a: "t < numberOfTrips d \<and> Suc t < firstTripOfRoute d (routeOfTrip d t + 1) \<and> i < 16"
  then have "Suc t < numberOfTrips d" using wf_dataD(3) [OF assms, of t] by simp
  moreover have "numberOfStopsInTrip d (Suc t) = numberOfStopsInTrip d t"
    using wf_dataD(5) [OF assms, of t] a by simp
  ultimately show "labels (clear (ProfileReachedIndexSIMD_new d uninit)) ! Suc t ! i
      \<le> labels (clear (ProfileReachedIndexSIMD_new d uninit)) ! t ! i"
    using a by (simp add: clear_labels)
qed

lemma trips_inv_update:
  assumes wf: "wf_data (data s)" and ri: "rounds_inv (data s) (labels s)"
    and ti: "trips_inv (data s) (labels s)" and up: "update pf s t0 p rnd = Some s'"
  shows "trips_inv (data s) (labels s')"
  unfolding trips_inv_def
proof (intro allI impI)
  fix t i :: nat
  let ?d = "data s" and ?F = "FILTER_lanes (unat rnd - 1) p"
  let ?lim = "firstTripOfRoute ?d (routeOfTrip ?d t0 + 1)"
  assume a: "t < numberOfTrips ?d \<and> Suc t < firstTripOfRoute ?d (routeOfTrip ?d t + 1) \<and> i < 16"
  then have t: "t < numberOfTrips ?d" and st: "Suc t < firstTripOfRoute ?d (routeOfTrip ?d t + 1)"
    and i: "i < 16" by simp_all
  have st_n: "Suc t < numberOfTrips ?d" using wf_dataD(3) [OF wf t] st by simp
  have len: "length (labels s) = numberOfTrips ?d" using ri by (simp add: rounds_inv_def)
  have la: "length (labels s ! t) = 16" and lb: "length (labels s ! Suc t) = 16"
    and nb: "nonincreasing (labels s ! Suc t)"
    using ri t st_n by (simp_all add: rounds_inv_def)
  have old: "labels s ! Suc t ! i \<le> labels s ! t ! i" using ti a by (simp add: trips_inv_def)
  have t0: "t0 < numberOfTrips ?d" using update_SomeD(1) [OF up] by (simp add: isTrip_def)
  from update_loop_char [OF update_SomeD(4) [OF up]] obtain k where k:
    "t0 \<le> k" "k \<le> ?lim \<or> k = t0"
    "\<forall>j < length (labels s). labels s' ! j = (if t0 \<le> j \<and> j < k then simd_min_u8 (labels s ! j) ?F else labels s ! j)"
    "k < ?lim \<longrightarrow> k < length (labels s) \<and> getPosition (labels s) k rnd \<le> p"
    by blast
  have new_a: "labels s' ! t = (if t0 \<le> t \<and> t < k then simd_min_u8 (labels s ! t) ?F else labels s ! t)"
    and new_b: "labels s' ! Suc t = (if t0 \<le> Suc t \<and> Suc t < k then simd_min_u8 (labels s ! Suc t) ?F else labels s ! Suc t)"
    using k(3) t st_n len by simp_all
  show "labels s' ! Suc t ! i \<le> labels s' ! t ! i"
  proof (cases "t0 \<le> Suc t \<and> Suc t < k")
    case True
    then show ?thesis
      using new_a new_b old la lb i
      by (auto simp: simd_min_FILTER_nth min_le_iff_disj)
  next
    case False
    note outside = this
    show ?thesis
    proof (cases "t0 \<le> t \<and> t < k")
      case True
      with outside have keq: "k = Suc t" by simp
      then have "k \<le> ?lim" using k(2) True by auto
      then have "t < ?lim" using keq by simp
      from route_segment [OF wf t0 _ this] True have "routeOfTrip ?d t = routeOfTrip ?d t0" by simp
      then have "k < ?lim" using st keq by simp
      with k(4) keq have exit: "getPosition (labels s) (Suc t) rnd \<le> p" by simp
      have "labels s ! Suc t ! i \<le> p" if "unat rnd - 1 \<le> i"
      proof -
        have "labels s ! Suc t ! i \<le> labels s ! Suc t ! (unat rnd - 1)"
          using nb that i unfolding nonincreasing_def by blast
        also have "\<dots> \<le> p" using exit by (simp add: getPosition_def)
        finally show ?thesis .
      qed
      then show ?thesis
        using new_a new_b True outside old la i by (auto simp: simd_min_FILTER_nth)
    next
      case False
      have "labels s' ! t = labels s ! t" using new_a by (simp only: False if_False)
      moreover have "labels s' ! Suc t = labels s ! Suc t" using new_b by (simp only: outside if_False)
      ultimately show ?thesis using old by simp
    qed
  qed
qed

lemma reached_inv:
  assumes "wf_data (data s)" "rounds_inv (data s) (labels s)" "trips_inv (data s) (labels s)"
  shows "updates pf s cs = Some s' \<Longrightarrow> rounds_inv (data s) (labels s') \<and> trips_inv (data s) (labels s')"
  using assms
proof (induction cs arbitrary: s)
  case Nil
  then show ?case by simp
next
  case (Cons c cs)
  from Cons.prems(1) obtain s1 where
    s1: "update pf s (fst c) (fst (snd c)) (snd (snd c)) = Some s1" and rest: "updates pf s1 cs = Some s'"
    by (auto split: option.splits)
  have d: "data s1 = data s" by (rule update_SomeD(5) [OF s1])
  have "rounds_inv (data s1) (labels s1)" "trips_inv (data s1) (labels s1)" "wf_data (data s1)"
    using rounds_inv_update [OF Cons.prems(3) s1] trips_inv_update [OF Cons.prems(2,3,4) s1] Cons.prems(2) d
    by simp_all
  from Cons.IH [OF rest this(3,1,2)] d show ?case by simp
qed

lemma reached_from_clear:
  assumes "wf_data d" "updates pf (clear (ProfileReachedIndexSIMD_new d uninit)) cs = Some s"
  shows "data s = d" and "rounds_inv d (labels s)" and "trips_inv d (labels s)"
proof -
  let ?s0 = "clear (ProfileReachedIndexSIMD_new d uninit)"
  have d0: "data ?s0 = d" by (rule clear_data)
  show "data s = d" using updates_frame [OF assms(2)] d0 by simp
  have "rounds_inv (data ?s0) (labels s) \<and> trips_inv (data ?s0) (labels s)"
    by (rule reached_inv [OF _ _ _ assms(2)])
       (simp_all add: d0 assms(1) rounds_inv_clear trips_inv_clear)
  then show "rounds_inv d (labels s)" and "trips_inv d (labels s)" using d0 by simp_all
qed

section \<open>The update of a reached state\<close>

lemma update_loop_total:
  "limit \<le> length ls \<Longrightarrow> \<exists>ls'. update_loop limit p rnd F tr ls = Some ls'"
proof (induction limit p rnd F tr ls rule: update_loop.induct)
  case (1 limit p rnd F tr ls)
  show ?case
  proof (cases "tr < limit \<and> tr < length ls \<and> p < getPosition ls tr rnd")
    case True
    then have "\<exists>ls'. update_loop limit p rnd F (Suc tr) (ls[tr := simd_min_u8 (ls ! tr) F]) = Some ls'"
      using "1.IH" "1.prems" by simp
    then show ?thesis using True by (subst update_loop.simps) simp
  next
    case False
    then show ?thesis using "1.prems" by (subst update_loop.simps) auto
  qed
qed

lemma update_total:
  assumes "wf_data (data s)" "wf_index s" "isTrip (data s) trip" "0 < rnd" "rnd < 16"
  shows "\<exists>s'. update pf s trip p rnd = Some s'"
proof -
  let ?lim = "firstTripOfRoute (data s) (routeOfTrip (data s) trip + 1)"
  have "?lim \<le> length (labels s)"
    using wf_dataD(3) [OF assms(1)] assms(2,3) by (simp add: isTrip_def wf_index_def)
  from update_loop_total [OF this] obtain ls' where
    "update_loop ?lim p rnd (FILTER_lanes (unat rnd - 1) p) trip (labels s) = Some ls'"
    by blast
  then show ?thesis using assms(3,4,5) by (simp add: update_def FILTER_of_closed)
qed

text \<open>After an update the trip itself is covered from the round's entry on.\<close>

lemma update_covers_trip:
  assumes wf: "wf_data (data s)" and ri: "rounds_inv (data s) (labels s)"
    and up: "update pf s trip p rnd = Some s'" and i: "unat rnd - 1 \<le> i" "i < 16"
  shows "labels s' ! trip ! i \<le> p"
proof -
  let ?lim = "firstTripOfRoute (data s) (routeOfTrip (data s) trip + 1)"
  let ?F = "FILTER_lanes (unat rnd - 1) p"
  have t: "trip < numberOfTrips (data s)" using update_SomeD(1) [OF up] by (simp add: isTrip_def)
  then have tl: "trip < length (labels s)" and l16: "length (labels s ! trip) = 16"
    and mono: "nonincreasing (labels s ! trip)"
    using ri by (simp_all add: rounds_inv_def)
  have lim: "trip < ?lim" by (rule wf_dataD(2) [OF wf t])
  from update_loop_char [OF update_SomeD(4) [OF up]] obtain k where k:
    "trip \<le> k"
    "\<forall>j < length (labels s). labels s' ! j = (if trip \<le> j \<and> j < k then simd_min_u8 (labels s ! j) ?F else labels s ! j)"
    "k < ?lim \<longrightarrow> k < length (labels s) \<and> getPosition (labels s) k rnd \<le> p"
    by blast
  show ?thesis
  proof (cases "trip < k")
    case True
    then have "labels s' ! trip = simd_min_u8 (labels s ! trip) ?F" using k(2) tl by simp
    then show ?thesis using l16 i by (simp add: simd_min_FILTER_nth)
  next
    case False
    then have keq: "k = trip" using k(1) by simp
    then have same: "labels s' ! trip = labels s ! trip" using k(2) tl by simp
    have "getPosition (labels s) trip rnd \<le> p" using k(3) keq lim by simp
    then have "labels s ! trip ! (unat rnd - 1) \<le> p" by (simp add: getPosition_def)
    moreover have "labels s ! trip ! i \<le> labels s ! trip ! (unat rnd - 1)"
      using mono i unfolding nonincreasing_def by blast
    ultimately show ?thesis using same by simp
  qed
qed

lemma update_keeps_earlier:
  assumes wi: "wf_index s" and up: "update pf s trip p rnd = Some s'"
    and j: "j < length (labels s)" and i: "i < unat rnd - 1" "i < 16"
  shows "labels s' ! j ! i = labels s ! j ! i"
proof -
  have "length (labels s ! j) = 16" using wi j by (simp add: wf_index_def list_all_length)
  then show ?thesis using update_lanes [OF up j] i by (auto simp: simd_min_FILTER_nth)
qed

lemma word8_le_15:
  fixes r :: "8 word"
  shows "r \<le> 15 \<Longrightarrow> r < 16"
  by (simp add: word_le_nat_alt word_less_nat_alt)

text \<open>
  Claim C1, as amended.  In every state reached from \<open>clear()\<close> by \<open>update\<close> calls, over a
  well-formed timetable: for a valid trip, a position and a round \<open>r\<close> in \<open>[1,15]\<close>,
  \<open>update\<close> returns, afterwards \<open>alreadyReached\<close> holds for the trip and position at every
  round from \<open>r\<close> to 15, and the stored positions of the trip at the rounds below \<open>r\<close> are
  as before the call.
\<close>

theorem C1_propagation_reached:
  assumes "wf_data d"
    and "updates pf (clear (ProfileReachedIndexSIMD_new d uninit)) calls = Some s"
    and "isTrip d trip" and "0 < rnd" and "rnd < 16"
  shows "\<exists>s'. update pf s trip position rnd = Some s'
          \<and> (\<forall>r'. rnd \<le> r' \<and> r' \<le> 15 \<longrightarrow> alreadyReached s' trip position r' = Some True)
          \<and> (\<forall>r''. 0 < r'' \<and> r'' < rnd \<longrightarrow>
                getPosition (labels s') trip r'' = getPosition (labels s) trip r'')"
proof -
  note inv = reached_from_clear [OF assms(1,2)]
  have wfd: "wf_data (data s)" and ri: "rounds_inv (data s) (labels s)" and t: "isTrip (data s) trip"
    using inv assms(1,3) by simp_all
  have wi: "wf_index s" by (rule rounds_inv_wf_index [OF ri])
  from update_total [OF wfd wi t assms(4,5)] obtain s' where up: "update pf s trip position rnd = Some s'"
    by blast
  have tl: "trip < length (labels s)" using wi t by (simp add: wf_index_def isTrip_def)
  have later: "alreadyReached s' trip position r' = Some True" if "rnd \<le> r' \<and> r' \<le> 15" for r'
  proof -
    from that assms(4) have r': "0 < r'" "r' < 16" by (auto intro: word8_le_15)
    have "unat rnd \<le> unat r'" using that by (simp add: word_le_nat_alt)
    then have "unat rnd - 1 \<le> unat r' - 1" by linarith
    moreover have "unat r' - 1 < 16" using round_slot [OF r'] by simp
    ultimately have "labels s' ! trip ! (unat r' - 1) \<le> position"
      by (rule update_covers_trip [OF wfd ri up])
    then show ?thesis
      using r' t update_SomeD(5) [OF up] by (simp add: alreadyReached_def getPosition_def)
  qed
  have earlier: "getPosition (labels s') trip r'' = getPosition (labels s) trip r''"
    if "0 < r'' \<and> r'' < rnd" for r''
  proof -
    from that have "1 \<le> unat r''" "unat r'' < unat rnd" by (simp_all add: word_less_nat_alt)
    then have a: "unat r'' - 1 < unat rnd - 1" by linarith
    have b: "unat r'' - 1 < 16" using a round_slot [OF assms(4,5)] by linarith
    show ?thesis unfolding getPosition_def by (rule update_keeps_earlier [OF wi up tl a b])
  qed
  from up later earlier show ?thesis by blast
qed


theorem C1_propagation_reached_witness:
  "wf_data scenario
 \<and> updates ARM (clear (ProfileReachedIndexSIMD_new scenario [])) [(1, 3, 4)]
     = Some (clear (ProfileReachedIndexSIMD_new scenario [])
         \<lparr>labels := [replicate 16 5, [5, 5, 5] @ replicate 13 3, [5, 5, 5] @ replicate 13 3]\<rparr>)
 \<and> isTrip scenario 0 \<and> (0 :: 8 word) < 2 \<and> (2 :: 8 word) < 16
 \<and> (2 :: 8 word) \<le> 7 \<and> (7 :: 8 word) \<le> 15 \<and> (0 :: 8 word) < 1 \<and> (1 :: 8 word) < 2
 \<and> map_option (\<lambda>s'. alreadyReached s' 0 4 7)
       (update ARM (clear (ProfileReachedIndexSIMD_new scenario [])
         \<lparr>labels := [replicate 16 5, [5, 5, 5] @ replicate 13 3, [5, 5, 5] @ replicate 13 3]\<rparr>) 0 4 2)
     = Some (Some True)
 \<and> map_option (\<lambda>s'. getPosition (labels s') 0 1)
       (update ARM (clear (ProfileReachedIndexSIMD_new scenario [])
         \<lparr>labels := [replicate 16 5, [5, 5, 5] @ replicate 13 3, [5, 5, 5] @ replicate 13 3]\<rparr>) 0 4 2)
     = Some 5"
proof -
  let ?s = "clear (ProfileReachedIndexSIMD_new scenario [])
         \<lparr>labels := [replicate 16 5, [5, 5, 5] @ replicate 13 3, [5, 5, 5] @ replicate 13 3]\<rparr>"
  have run: "updates ARM (clear (ProfileReachedIndexSIMD_new scenario [])) [(1, 3, 4)] = Some ?s"
    by (rule updates_eqI) code_simp
  have t: "isTrip scenario 0" by (simp add: scenario_data isTrip_def)
  have r: "(0 :: 8 word) < 2" "(2 :: 8 word) < 16" by simp_all
  have q: "(2 :: 8 word) \<le> 7 \<and> (7 :: 8 word) \<le> 15" "(0 :: 8 word) < 1 \<and> (1 :: 8 word) < 2" by simp_all
  from C1_propagation_reached [OF scenario_index_facts(1) run t r, of 4] obtain s' where
    s': "update ARM ?s 0 4 2 = Some s'"
    and a: "\<forall>r'. 2 \<le> r' \<and> r' \<le> 15 \<longrightarrow> alreadyReached s' 0 4 r' = Some True"
    and b: "\<forall>r''. 0 < r'' \<and> r'' < 2 \<longrightarrow> getPosition (labels s') 0 r'' = getPosition (labels ?s) 0 r''"
    by blast
  from a q(1) have a': "alreadyReached s' 0 4 7 = Some True" by blast
  from b q(2) have "getPosition (labels s') 0 1 = getPosition (labels ?s) 0 1" by blast
  then have b': "getPosition (labels s') 0 1 = 5" by (simp add: getPosition_def)
  show ?thesis
    using scenario_index_facts(1) run t s' a' b' by simp
qed

theorem C1_counterexample:
  "operator_write scenario_index 0 1 1 = Some written_first
 \<and> update ARM written_first 0 2 1 = Some written_first
 \<and> alreadyReached written_first 0 2 2 = Some False"
proof -
  have "(replicate 3 (replicate 16 5))[0 := (replicate 16 5)[0 := 1]]
      = [1 # replicate 15 (5 :: 8 word), replicate 16 5, replicate 16 5]"
    by code_simp
  then have w: "operator_write scenario_index 0 1 1 = Some written_first"
    by (simp add: operator_write_def written_first_def scenario_index_facts)
  have "wf_index written_first" "isTrip (data written_first) 0"
    "getPosition (labels written_first) 0 1 \<le> 2"
    by code_simp+
  then have u: "update ARM written_first 0 2 1 = Some written_first"
    by (intro update_unchanged) simp_all
  have a: "alreadyReached written_first 0 2 2 = Some False" by code_simp
  from w u a show ?thesis by simp
qed

section \<open>Early exit against the update of every trip\<close>

lemma fold_min_id:
  "\<forall>j \<in> set js. j < length ls \<and> simd_min_u8 (ls ! j) F = ls ! j
   \<Longrightarrow> fold (\<lambda>tr ls. ls[tr := simd_min_u8 (ls ! tr) F]) js ls = ls"
  by (induction js) simp_all

lemma segment_below:
  fixes ls :: "simd128_t list"
  assumes chain: "\<forall>j i. tr \<le> j \<and> Suc j < lim \<and> i < 16 \<longrightarrow> ls ! Suc j ! i \<le> ls ! j ! i"
    and i: "i < 16"
  shows "tr \<le> j \<Longrightarrow> j < lim \<Longrightarrow> ls ! j ! i \<le> ls ! tr ! i"
proof (induction j)
  case 0
  then show ?case by simp
next
  case (Suc j)
  show ?case
  proof (cases "tr = Suc j")
    case True
    then show ?thesis by simp
  next
    case False
    then have a: "tr \<le> j" "j < lim" using Suc.prems by simp_all
    have "ls ! Suc j ! i \<le> ls ! j ! i" using chain a(1) Suc.prems(2) i by blast
    also have "\<dots> \<le> ls ! tr ! i" by (rule Suc.IH [OF a])
    finally show ?thesis .
  qed
qed

lemma update_loop_eq_fold:
  assumes "lim \<le> length ls"
    and "\<forall>j. tr \<le> j \<and> j < lim \<longrightarrow> length (ls ! j) = 16 \<and> nonincreasing (ls ! j)"
    and "\<forall>j i. tr \<le> j \<and> Suc j < lim \<and> i < 16 \<longrightarrow> ls ! Suc j ! i \<le> ls ! j ! i"
    and "k = unat rnd - 1" and "k < 16"
  shows "update_loop lim p rnd (FILTER_lanes k p) tr ls
       = Some (fold (\<lambda>tr ls. ls[tr := simd_min_u8 (ls ! tr) (FILTER_lanes k p)]) [tr..<lim] ls)"
  using assms
proof (induction lim p rnd "FILTER_lanes k p" tr ls rule: update_loop.induct)
  case (1 lim p rnd tr ls)
  let ?F = "FILTER_lanes k p"
  let ?f = "\<lambda>tr ls. ls[tr := simd_min_u8 (ls ! tr) ?F]"
  show ?case
  proof (cases "tr < lim")
    case False
    then show ?thesis by (subst update_loop.simps) simp
  next
    case True
    then have tl: "tr < length ls" using "1.prems"(1) by simp
    show ?thesis
    proof (cases "p < getPosition ls tr rnd")
      case True' : True
      let ?ls1 = "ls[tr := simd_min_u8 (ls ! tr) ?F]"
      have "update_loop lim p rnd ?F (Suc tr) ?ls1 = Some (fold ?f [Suc tr..<lim] ?ls1)"
      proof (rule "1.hyps"(1) [OF True tl True'])
        show "lim \<le> length ?ls1" using "1.prems"(1) by simp
        show "\<forall>j. Suc tr \<le> j \<and> j < lim \<longrightarrow> length (?ls1 ! j) = 16 \<and> nonincreasing (?ls1 ! j)"
          using "1.prems"(2) by simp
        show "\<forall>j i. Suc tr \<le> j \<and> Suc j < lim \<and> i < 16 \<longrightarrow> ?ls1 ! Suc j ! i \<le> ?ls1 ! j ! i"
          using "1.prems"(3) by simp
      qed (rule "1.prems"(4), rule "1.prems"(5))
      moreover have "[tr..<lim] = tr # [Suc tr..<lim]" using True by (simp add: upt_conv_Cons)
      ultimately show ?thesis using True tl True' by (subst update_loop.simps) simp
    next
      case False
      then have exit: "ls ! tr ! k \<le> p" using "1.prems"(4) by (simp add: getPosition_def)
      have "j < length ls \<and> simd_min_u8 (ls ! j) ?F = ls ! j" if "j \<in> set [tr..<lim]" for j
      proof -
        from that have j: "tr \<le> j" "j < lim" by simp_all
        have l16: "length (ls ! j) = 16" and mono: "nonincreasing (ls ! tr)"
          using "1.prems"(2) j True by auto
        have "ls ! j ! i \<le> p" if "k \<le> i \<and> i < 16" for i
        proof -
          have "ls ! j ! i \<le> ls ! tr ! i"
            using segment_below [OF "1.prems"(3) _ j] that by simp
          also have "\<dots> \<le> ls ! tr ! k" using mono that unfolding nonincreasing_def by blast
          also have "\<dots> \<le> p" by (rule exit)
          finally show ?thesis .
        qed
        then have "simd_min_u8 (ls ! j) ?F = ls ! j" by (intro simd_min_FILTER_id [OF l16]) simp
        then show ?thesis using j "1.prems"(1) by simp
      qed
      then have "fold ?f [tr..<lim] ls = ls" by (intro fold_min_id) blast
      then show ?thesis using True tl False by (subst update_loop.simps) simp
    qed
  qed
qed

text \<open>
  Claim C2, as amended.  In every state reached from \<open>clear()\<close> by \<open>update\<close> calls, over a
  well-formed timetable: for a valid trip of a route (in particular its first trip), a
  position and a round in \<open>[1,15]\<close>, \<open>update\<close> with its early exit returns, and the index
  it leaves is the one obtained by applying the lane-wise minimum with the same filter to
  every trip from the given one to the last trip of the route.
\<close>

theorem C2_early_exit_reached:
  assumes "wf_data d"
    and "updates pf (clear (ProfileReachedIndexSIMD_new d uninit)) calls = Some s"
    and "isTrip d trip" and "0 < rnd" and "rnd < 16"
  shows "\<exists>s'. update pf s trip position rnd = Some s'
          \<and> update_every_trip pf s trip position rnd = Some s'"
proof -
  note inv = reached_from_clear [OF assms(1,2)]
  let ?lim = "firstTripOfRoute d (routeOfTrip d trip + 1)"
  let ?F = "FILTER_lanes (unat rnd - 1) position"
  have t: "trip < numberOfTrips d" using assms(3) by (simp add: isTrip_def)
  have len: "length (labels s) = numberOfTrips d" using inv(2) by (simp add: rounds_inv_def)
  have lim: "?lim \<le> length (labels s)" using wf_dataD(3) [OF assms(1) t] len by simp
  have shape: "\<forall>j. trip \<le> j \<and> j < ?lim \<longrightarrow> length (labels s ! j) = 16 \<and> nonincreasing (labels s ! j)"
    using inv(2) lim len by (simp add: rounds_inv_def)
  have chain: "\<forall>j i. trip \<le> j \<and> Suc j < ?lim \<and> i < 16 \<longrightarrow> labels s ! Suc j ! i \<le> labels s ! j ! i"
  proof (intro allI impI)
    fix j i :: nat
    assume a: "trip \<le> j \<and> Suc j < ?lim \<and> i < 16"
    then have "j < ?lim" by simp
    from route_segment [OF assms(1) t _ this] a
    have "routeOfTrip d j = routeOfTrip d trip" "j < numberOfTrips d" by simp_all
    then show "labels s ! Suc j ! i \<le> labels s ! j ! i"
      using inv(3) a unfolding trips_inv_def by simp
  qed
  have "update_loop ?lim position rnd ?F trip (labels s)
      = Some (fold (\<lambda>tr ls. ls[tr := simd_min_u8 (ls ! tr) ?F]) [trip..<?lim] (labels s))"
    by (rule update_loop_eq_fold [OF lim shape chain refl]) (use round_slot [OF assms(4,5)] in simp)
  then show ?thesis
    using assms(3,4,5) inv(1) by (simp add: update_def update_every_trip_def FILTER_of_closed)
qed

theorem C2_early_exit_reached_witness:
  "wf_data scenario
 \<and> updates ARM (clear (ProfileReachedIndexSIMD_new scenario [])) [(1, 3, 4)]
     = Some (clear (ProfileReachedIndexSIMD_new scenario [])
         \<lparr>labels := [replicate 16 5, [5, 5, 5] @ replicate 13 3, [5, 5, 5] @ replicate 13 3]\<rparr>)
 \<and> isTrip scenario 0 \<and> (0 :: 8 word) < 2 \<and> (2 :: 8 word) < 16
 \<and> update ARM (clear (ProfileReachedIndexSIMD_new scenario [])
         \<lparr>labels := [replicate 16 5, [5, 5, 5] @ replicate 13 3, [5, 5, 5] @ replicate 13 3]\<rparr>) 0 4 2
   = update_every_trip ARM (clear (ProfileReachedIndexSIMD_new scenario [])
         \<lparr>labels := [replicate 16 5, [5, 5, 5] @ replicate 13 3, [5, 5, 5] @ replicate 13 3]\<rparr>) 0 4 2
 \<and> map_option labels (update ARM (clear (ProfileReachedIndexSIMD_new scenario [])
         \<lparr>labels := [replicate 16 5, [5, 5, 5] @ replicate 13 3, [5, 5, 5] @ replicate 13 3]\<rparr>) 0 4 2)
   = Some [5 # replicate 15 4, [5, 4, 4] @ replicate 13 3, [5, 4, 4] @ replicate 13 3]"
proof -
  let ?s = "clear (ProfileReachedIndexSIMD_new scenario [])
         \<lparr>labels := [replicate 16 5, [5, 5, 5] @ replicate 13 3, [5, 5, 5] @ replicate 13 3]\<rparr>"
  have run: "updates ARM (clear (ProfileReachedIndexSIMD_new scenario [])) [(1, 3, 4)] = Some ?s"
    by (rule updates_eqI) code_simp
  have t: "isTrip scenario 0" by (simp add: scenario_data isTrip_def)
  have r: "(0 :: 8 word) < 2" "(2 :: 8 word) < 16" by simp_all
  have v: "map_option labels (update ARM ?s 0 4 2)
      = Some [5 # replicate 15 4, [5, 4, 4] @ replicate 13 3, [5, 4, 4] @ replicate 13 3]"
    by code_simp
  from C2_early_exit_reached [OF scenario_index_facts(1) run t r, of 4]
  have "update ARM ?s 0 4 2 = update_every_trip ARM ?s 0 4 2" by auto
  then show ?thesis
    using scenario_index_facts(1) run t v by simp
qed

theorem C2_counterexample:
  "operator_write scenario_index 1 1 0 = Some written_second
 \<and> map_option labels (update ARM written_second 0 2 1)
     = Some [replicate 16 2, 0 # replicate 15 5, replicate 16 5]
 \<and> map_option labels (update_every_trip ARM written_second 0 2 1)
     = Some [replicate 16 2, 0 # replicate 15 2, replicate 16 2]
 \<and> update ARM written_second 0 2 1 \<noteq> update_every_trip ARM written_second 0 2 1"
proof -
  have "(replicate 3 (replicate 16 5))[1 := (replicate 16 5)[0 := 0]]
      = [replicate 16 (5 :: 8 word), 0 # replicate 15 5, replicate 16 5]"
    by code_simp
  then have w: "operator_write scenario_index 1 1 0 = Some written_second"
    by (simp add: operator_write_def written_second_def scenario_index_facts)
  have u: "map_option labels (update ARM written_second 0 2 1)
      = Some [replicate 16 2, 0 # replicate 15 5, replicate 16 5]"
    by code_simp
  have e: "map_option labels (update_every_trip ARM written_second 0 2 1)
      = Some [replicate 16 2, 0 # replicate 15 2, replicate 16 2]"
    by code_simp
  have "[replicate 16 2, 0 # replicate 15 5, replicate 16 5]
      \<noteq> [replicate 16 2, 0 # replicate 15 2, replicate 16 (2 :: 8 word)]"
    by code_simp
  with u e have "update ARM written_second 0 2 1 \<noteq> update_every_trip ARM written_second 0 2 1"
    by auto
  with w u e show ?thesis by simp
qed

section \<open>The cleared index\<close>

lemma clear_getPosition:
  assumes "isTrip d trip"
  shows "getPosition (labels (clear (ProfileReachedIndexSIMD_new d uninit))) trip rnd
       = (if unat rnd - 1 < 16 then of_nat (numberOfStopsInTrip d trip)
          else replicate 16 (of_nat (numberOfStopsInTrip d trip)) ! (unat rnd - 1))"
  using assms by (simp add: getPosition_def clear_labels isTrip_def)

text \<open>
  Claim C4, as amended.  After \<open>clear()\<close>, for every valid trip whose stop count is below
  256 and every round in \<open>[1,15]\<close>, the stored position is the stop count of the trip, and
  \<open>alreadyReached\<close> is false for every position strictly below the stop count.  (In
  general the stored position is the stop count reduced to eight bits.)
\<close>

theorem C4_clear_sentinel:
  assumes "isTrip d trip" and "0 < rnd" and "rnd < 16" and "numberOfStopsInTrip d trip < 256"
  shows "unat (getPosition (labels (clear (ProfileReachedIndexSIMD_new d uninit))) trip rnd)
           = numberOfStopsInTrip d trip
       \<and> (\<forall>p. unat p < numberOfStopsInTrip d trip \<longrightarrow>
             alreadyReached (clear (ProfileReachedIndexSIMD_new d uninit)) trip p rnd = Some False)"
proof -
  let ?s = "clear (ProfileReachedIndexSIMD_new d uninit)"
  have slot: "unat rnd - 1 < 16" using round_slot [OF assms(2,3)] by simp
  have g: "getPosition (labels ?s) trip rnd = of_nat (numberOfStopsInTrip d trip)"
    using clear_getPosition [OF assms(1)] slot by simp
  have u: "unat (of_nat (numberOfStopsInTrip d trip) :: 8 word) = numberOfStopsInTrip d trip"
    using assms(4) by (simp add: unat_of_nat)
  have "alreadyReached ?s trip p rnd = Some False" if "unat p < numberOfStopsInTrip d trip" for p
  proof -
    have "\<not> getPosition (labels ?s) trip rnd \<le> p"
      using that g u by (simp add: word_le_nat_alt)
    then show ?thesis using assms(1,2,3) by (simp add: alreadyReached_def clear_data)
  qed
  with g u show ?thesis by simp
qed

theorem C4_clear_sentinel_witness:
  "isTrip scenario 0 \<and> (0 :: 8 word) < 1 \<and> (1 :: 8 word) < 16 \<and> numberOfStopsInTrip scenario 0 < 256
 \<and> unat (4 :: 8 word) < numberOfStopsInTrip scenario 0
 \<and> unat (getPosition (labels (clear (ProfileReachedIndexSIMD_new scenario []))) 0 1) = 5
 \<and> alreadyReached (clear (ProfileReachedIndexSIMD_new scenario [])) 0 4 1 = Some False"
proof -
  have t: "isTrip scenario 0" by (simp add: scenario_data isTrip_def)
  have r: "(0 :: 8 word) < 1" "(1 :: 8 word) < 16" by simp_all
  have n: "numberOfStopsInTrip scenario 0 < 256" "numberOfStopsInTrip scenario 0 = 5"
    "unat (4 :: 8 word) < numberOfStopsInTrip scenario 0"
    by (simp_all add: scenario_def)
  from C4_clear_sentinel [OF t r n(1), of "[]"] n(2,3)
  have "unat (getPosition (labels (clear (ProfileReachedIndexSIMD_new scenario []))) 0 1) = 5"
    and "alreadyReached (clear (ProfileReachedIndexSIMD_new scenario [])) 0 4 1 = Some False"
    by auto
  with t n show ?thesis by simp
qed

theorem C4_counterexample:
  "isTrip long_trip 0
 \<and> numberOfStopsInTrip long_trip 0 = 256
 \<and> getPosition (labels (clear (ProfileReachedIndexSIMD_new long_trip []))) 0 1 = 0
 \<and> alreadyReached (clear (ProfileReachedIndexSIMD_new long_trip [])) 0 0 1 = Some True"
proof -
  have "isTrip long_trip 0" "numberOfStopsInTrip long_trip 0 = 256"
    by (simp_all add: long_trip_def isTrip_def)
  moreover have "getPosition (labels (clear (ProfileReachedIndexSIMD_new long_trip []))) 0 1 = 0"
    by code_simp
  moreover have "alreadyReached (clear (ProfileReachedIndexSIMD_new long_trip [])) 0 0 1 = Some True"
    by code_simp
  ultimately show ?thesis by simp
qed

section \<open>Rounds and entries of a label\<close>

lemma round_slot_inj:
  fixes r1 r2 :: "8 word"
  assumes "0 < r1" "0 < r2" "unat r1 - 1 = unat r2 - 1"
  shows "r1 = r2"
proof -
  have "1 \<le> unat r1" "1 \<le> unat r2" using assms(1,2) by (simp_all add: word_less_nat_alt)
  with assms(3) have "unat r1 = unat r2" by linarith
  then show ?thesis by (rule word_unat_eq_iff [THEN iffD2])
qed

lemma getPosition_last_entry:
  fixes rnd :: "8 word"
  assumes "0 < rnd" "rnd < 16"
  shows "getPosition (ls[t2 := (ls ! t2)[15 := v]]) trip rnd = getPosition ls trip rnd"
proof -
  have "unat rnd - 1 \<noteq> 15" using round_slot [OF assms] by simp
  then show ?thesis
    unfolding getPosition_def
    by (cases "t2 = trip"; cases "t2 < length ls") (simp_all add: nth_list_update list_update_beyond)
qed

lemma operator_write_slots:
  assumes wi: "wf_index s" and t: "isTrip (data s) trip" and r: "0 < rnd" "rnd < 16"
  shows "\<exists>s'. operator_write s trip rnd v = Some s'
           \<and> getPosition (labels s') trip rnd = v
           \<and> labels s' ! trip ! 15 = labels s ! trip ! 15
           \<and> (\<forall>r2. 0 < r2 \<and> r2 < 16 \<and> r2 \<noteq> rnd \<longrightarrow>
                 getPosition (labels s') trip r2 = getPosition (labels s) trip r2)"
proof -
  let ?ls = "(labels s)[trip := (labels s ! trip)[unat rnd - 1 := v]]"
  have tl: "trip < length (labels s)" and l16: "length (labels s ! trip) = 16"
    using wi t by (simp_all add: wf_index_def isTrip_def list_all_length)
  have ru: "1 \<le> unat rnd" "unat rnd \<le> 16" "unat rnd - 1 < 15"
    using round_range [OF r] round_slot [OF r] by simp_all
  have w: "operator_write s trip rnd v = Some (s\<lparr>labels := ?ls\<rparr>)"
    using tl ru by (simp add: operator_write_def)
  have a: "getPosition ?ls trip rnd = v" using tl l16 ru by (simp add: getPosition_def)
  have b: "?ls ! trip ! 15 = labels s ! trip ! 15" using tl ru by simp
  have c: "getPosition ?ls trip r2 = getPosition (labels s) trip r2" if "0 < r2 \<and> r2 < 16 \<and> r2 \<noteq> rnd" for r2
  proof -
    have "unat rnd - 1 \<noteq> unat r2 - 1" using round_slot_inj [OF r(1), of r2] that by auto
    then show ?thesis using tl by (simp add: getPosition_def)
  qed
  from w a b c show ?thesis by simp
qed

lemma update_improves_trip:
  assumes wf: "wf_data (data s)" and up: "update pf s trip p rnd = Some s'"
    and less: "p < getPosition (labels s) trip rnd" and tl: "trip < length (labels s)"
  shows "labels s' ! trip = simd_min_u8 (labels s ! trip) (FILTER_lanes (unat rnd - 1) p)"
proof -
  let ?lim = "firstTripOfRoute (data s) (routeOfTrip (data s) trip + 1)"
  let ?F = "FILTER_lanes (unat rnd - 1) p"
  have t: "trip < numberOfTrips (data s)" using update_SomeD(1) [OF up] by (simp add: isTrip_def)
  have lim: "trip < ?lim" by (rule wf_dataD(2) [OF wf t])
  from update_loop_char [OF update_SomeD(4) [OF up]] obtain k where k:
    "trip \<le> k"
    "\<forall>j < length (labels s). labels s' ! j = (if trip \<le> j \<and> j < k then simd_min_u8 (labels s ! j) ?F else labels s ! j)"
    "k < ?lim \<longrightarrow> k < length (labels s) \<and> getPosition (labels s) k rnd \<le> p"
    by blast
  have "k \<noteq> trip" using k(3) lim less by auto
  then have "trip < k" using k(1) by simp
  then show ?thesis using k(2) tl by simp
qed

text \<open>
  Claim C5, as amended.  A round \<open>r\<close> in \<open>[1,15]\<close> is stored in entry \<open>r - 1\<close> of the
  16-entry label, so the rounds have distinct entries among \<open>0..14\<close> and the entry that no
  round addresses is entry 15, not entry 0: neither \<open>alreadyReached\<close> nor a read through
  \<open>operator()\<close> depends on entry 15, and a write through \<open>operator()\<close> changes the entry of
  its round only, leaving entry 15 and the entries of all other rounds as they were.
  (\<open>update\<close> does write entry 15: when it improves the trip it takes the minimum there as
  on every entry from \<open>r - 1\<close> on.)
\<close>

theorem C5_round_entries:
  assumes "wf_data (data s)" and "wf_index s" and "isTrip (data s) trip" and "0 < rnd" and "rnd < 16"
  shows "getPosition (labels s) trip rnd = labels s ! trip ! (unat rnd - 1) \<and> unat rnd - 1 < 15
       \<and> (\<forall>r2. 0 < r2 \<and> r2 < 16 \<and> r2 \<noteq> rnd \<longrightarrow> unat r2 - 1 \<noteq> unat rnd - 1)
       \<and> alreadyReached (s\<lparr>labels := (labels s)[t2 := (labels s ! t2)[15 := v]]\<rparr>) trip p rnd
           = alreadyReached s trip p rnd
       \<and> operator_read (s\<lparr>labels := (labels s)[t2 := (labels s ! t2)[15 := v]]\<rparr>) trip rnd
           = operator_read s trip rnd
       \<and> (\<exists>s'. operator_write s trip rnd v = Some s'
             \<and> getPosition (labels s') trip rnd = v
             \<and> labels s' ! trip ! 15 = labels s ! trip ! 15
             \<and> (\<forall>r2. 0 < r2 \<and> r2 < 16 \<and> r2 \<noteq> rnd \<longrightarrow>
                   getPosition (labels s') trip r2 = getPosition (labels s) trip r2))
       \<and> (\<forall>s'. update pf s trip p rnd = Some s' \<and> p < getPosition (labels s) trip rnd \<longrightarrow>
             labels s' ! trip ! 15 = min (labels s ! trip ! 15) p)"
proof -
  have tl: "trip < length (labels s)" and l16: "length (labels s ! trip) = 16"
    using assms(2,3) by (simp_all add: wf_index_def isTrip_def list_all_length)
  have slot: "unat rnd - 1 < 15" by (rule round_slot [OF assms(4,5)])
  have a: "getPosition (labels s) trip rnd = labels s ! trip ! (unat rnd - 1)"
    by (simp add: getPosition_def)
  have b: "\<forall>r2. 0 < r2 \<and> r2 < 16 \<and> r2 \<noteq> rnd \<longrightarrow> unat r2 - 1 \<noteq> unat rnd - 1"
    using round_slot_inj [OF _ assms(4)] by blast
  have c: "alreadyReached (s\<lparr>labels := (labels s)[t2 := (labels s ! t2)[15 := v]]\<rparr>) trip p rnd
           = alreadyReached s trip p rnd"
    by (simp add: alreadyReached_def getPosition_last_entry [OF assms(4,5)])
  have d: "operator_read (s\<lparr>labels := (labels s)[t2 := (labels s ! t2)[15 := v]]\<rparr>) trip rnd
           = operator_read s trip rnd"
    by (simp add: operator_read_def getPosition_last_entry [OF assms(4,5)])
  have e: "labels s' ! trip ! 15 = min (labels s ! trip ! 15) p"
    if "update pf s trip p rnd = Some s' \<and> p < getPosition (labels s) trip rnd" for s'
  proof -
    have "labels s' ! trip = simd_min_u8 (labels s ! trip) (FILTER_lanes (unat rnd - 1) p)"
      using update_improves_trip [OF assms(1) _ _ tl] that by blast
    then show ?thesis using l16 slot by (simp add: simd_min_FILTER_nth)
  qed
  from a slot b c d operator_write_slots [OF assms(2,3,4,5), of v] e show ?thesis by blast
qed

theorem C5_round_entries_witness:
  "wf_data (data scenario_index) \<and> wf_index scenario_index \<and> isTrip (data scenario_index) 0
 \<and> (0 :: 8 word) < 1 \<and> (1 :: 8 word) < 16
 \<and> (0 :: 8 word) < 2 \<and> (2 :: 8 word) < 16 \<and> (2 :: 8 word) \<noteq> 1
 \<and> (3 :: 8 word) < getPosition (labels scenario_index) 0 1
 \<and> getPosition (labels scenario_index) 0 1 = labels scenario_index ! 0 ! 0
 \<and> unat (2 :: 8 word) - 1 \<noteq> unat (1 :: 8 word) - 1
 \<and> alreadyReached (scenario_index\<lparr>labels := (labels scenario_index)[0 := (labels scenario_index ! 0)[15 := 0]]\<rparr>) 0 3 1
     = alreadyReached scenario_index 0 3 1
 \<and> map_option (\<lambda>s'. getPosition (labels s') 0 2) (operator_write scenario_index 0 1 0)
     = Some (getPosition (labels scenario_index) 0 2)
 \<and> map_option (\<lambda>s'. labels s' ! 0 ! 15) (update ARM scenario_index 0 3 1) = Some 3"
proof -
  have d: "wf_data (data scenario_index)" by (simp add: scenario_data scenario_index_facts)
  have t: "isTrip (data scenario_index) 0" by (simp add: scenario_data isTrip_def)
  have r: "(0 :: 8 word) < 1" "(1 :: 8 word) < 16" by simp_all
  have q: "(0 :: 8 word) < 2 \<and> (2 :: 8 word) < 16 \<and> (2 :: 8 word) \<noteq> 1" by simp
  have g: "(3 :: 8 word) < getPosition (labels scenario_index) 0 1"
    and l: "labels scenario_index ! 0 ! 15 = 5"
    by (simp_all add: scenario_index_facts getPosition_def)
  note C = C5_round_entries [OF d scenario_index_facts(2) t r, of 0 0 3 ARM]
  from C have a: "getPosition (labels scenario_index) 0 1 = labels scenario_index ! 0 ! (unat (1 :: 8 word) - 1)"
    by blast
  from C q have b: "unat (2 :: 8 word) - 1 \<noteq> unat (1 :: 8 word) - 1" by blast
  from C have c: "alreadyReached (scenario_index\<lparr>labels := (labels scenario_index)[0 := (labels scenario_index ! 0)[15 := 0]]\<rparr>) 0 3 1
     = alreadyReached scenario_index 0 3 1" by blast
  from C q obtain s1 where "operator_write scenario_index 0 1 0 = Some s1"
    "getPosition (labels s1) 0 2 = getPosition (labels scenario_index) 0 2" by blast
  then have e: "map_option (\<lambda>s'. getPosition (labels s') 0 2) (operator_write scenario_index 0 1 0)
     = Some (getPosition (labels scenario_index) 0 2)" by simp
  obtain s2 where s2: "update ARM scenario_index 0 3 1 = Some s2"
    using update_total [OF d scenario_index_facts(2) t r] by blast
  with C g have "labels s2 ! 0 ! 15 = min (labels scenario_index ! 0 ! 15) 3" by blast
  with s2 l have f: "map_option (\<lambda>s'. labels s' ! 0 ! 15) (update ARM scenario_index 0 3 1) = Some 3"
    by simp
  from d scenario_index_facts(2) t g a b c e f show ?thesis by simp
qed

theorem C5_counterexample:
  "labels scenario_index ! 0 ! 0 = 5
 \<and> map_option (\<lambda>s'. labels s' ! 0 ! 0) (update ARM scenario_index 0 2 1) = Some 2
 \<and> written_first = scenario_index\<lparr>labels := (labels scenario_index)[0 := (labels scenario_index ! 0)[0 := 1]]\<rparr>
 \<and> alreadyReached scenario_index 0 1 1 = Some False
 \<and> alreadyReached written_first 0 1 1 = Some True"
proof -
  have a: "labels scenario_index ! 0 ! 0 = 5" by (simp add: scenario_index_facts)
  have b: "map_option (\<lambda>s'. labels s' ! 0 ! 0) (update ARM scenario_index 0 2 1) = Some 2"
    by code_simp
  have "(replicate 3 (replicate 16 5))[0 := (replicate 16 5)[0 := 1]]
      = [1 # replicate 15 (5 :: 8 word), replicate 16 5, replicate 16 5]"
    by code_simp
  then have c: "written_first = scenario_index\<lparr>labels := (labels scenario_index)[0 := (labels scenario_index ! 0)[0 := 1]]\<rparr>"
    by (simp add: written_first_def scenario_index_facts)
  have d: "alreadyReached scenario_index 0 1 1 = Some False" "alreadyReached written_first 0 1 1 = Some True"
    by code_simp+
  from a b c d show ?thesis by simp
qed

section \<open>aligned_allocator: sizes\<close>

lemma unat_max_size:
  "unat (max_size sizeof_T) = (2 ^ 64 - 1) div unat sizeof_T"
  by (simp add: max_size_def unat_div unsigned_minus_1_eq_mask mask_eq_exp_minus_1)

lemma exceeds_max_size_iff:
  assumes "sizeof_T \<noteq> 0"
  shows "n > max_size sizeof_T \<longleftrightarrow> 2 ^ 64 \<le> unat n * unat sizeof_T"
proof -
  have pos: "0 < unat sizeof_T" using assms by (simp add: unat_gt_0)
  have "n > max_size sizeof_T \<longleftrightarrow> (2 ^ 64 - 1) div unat sizeof_T < unat n"
    by (simp add: word_less_nat_alt unat_max_size)
  also have "\<dots> \<longleftrightarrow> 2 ^ 64 - 1 < unat n * unat sizeof_T"
    by (rule div_less_iff_less_mult [OF pos])
  also have "\<dots> \<longleftrightarrow> 2 ^ 64 \<le> unat n * unat sizeof_T" by (simp, arith)
  finally show ?thesis .
qed

lemma unat_total:
  assumes "sizeof_T \<noteq> 0" "\<not> n > max_size sizeof_T"
  shows "unat (n * sizeof_T) = unat n * unat sizeof_T"
proof -
  have "unat n * unat sizeof_T < 2 ^ 64" using exceeds_max_size_iff [OF assms(1), of n] assms(2) by simp
  then show ?thesis by (simp add: unat_mult_lem [THEN iffD1])
qed

lemma and_not_low_bits:
  fixes w :: "64 word"
  shows "w AND NOT (2 ^ k - 1) = push_bit k (drop_bit k w)"
  by (rule bit_eqI) (auto simp: bit_simps simp flip: mask_eq_exp_minus_1)

lemma unat_align_down:
  fixes w :: "64 word"
  shows "unat (w AND NOT (2 ^ k - 1)) = 2 ^ k * (unat w div 2 ^ k)"
proof -
  have le: "2 ^ k * (unat w div 2 ^ k) \<le> unat w" by simp
  have "unat w < 2 ^ 64" using unsigned_less [of w] by simp
  with le have small: "2 ^ k * (unat w div 2 ^ k) < 2 ^ 64" by linarith
  have d: "unat (drop_bit k w) = unat w div 2 ^ k"
    by (simp only: unat_drop_bit_eq) (simp only: drop_bit_eq_div)
  have "unat (push_bit k (drop_bit k w)) = (unat (drop_bit k w) * 2 ^ k) mod 2 ^ 64"
    by (simp only: unsigned_push_bit_eq) (simp add: push_bit_eq_mult take_bit_eq_mod)
  also have "\<dots> = (2 ^ k * (unat w div 2 ^ k)) mod 2 ^ 64"
    by (simp only: d mult.commute)
  also have "\<dots> = 2 ^ k * (unat w div 2 ^ k)"
    using small by (simp only: mod_less)
  finally show ?thesis by (simp only: and_not_low_bits)
qed

lemma unat_rounded:
  fixes total :: "64 word"
  assumes "k < 64" "unat total + 2 ^ k - 1 < 2 ^ 64"
  shows "unat (total + 2 ^ k - 1) = unat total + 2 ^ k - 1"
proof -
  have one: "(1 :: nat) \<le> unat total + 2 ^ k" by (simp add: Suc_le_eq add_pos_nonneg)
  have "total + 2 ^ k - 1 = (of_nat (unat total + 2 ^ k - 1) :: 64 word)"
    using one by (simp add: of_nat_diff)
  then have "unat (total + 2 ^ k - 1) = (unat total + 2 ^ k - 1) mod 2 ^ 64"
    by (simp only: unat_of_nat) simp
  then show ?thesis using assms(2) by simp
qed

lemma round_up_nat:
  fixes T m :: nat
  assumes "0 < m"
  shows "m dvd m * ((T + m - 1) div m)" and "T \<le> m * ((T + m - 1) div m)"
    and "m * ((T + m - 1) div m) < T + m"
proof -
  let ?y = "T + m - 1"
  have eq: "m * (?y div m) = ?y - ?y mod m" by (simp add: minus_mod_eq_mult_div [symmetric])
  have lt: "?y mod m < m" using assms by simp
  show "m dvd m * (?y div m)" by simp
  show "T \<le> m * (?y div m)" using eq lt assms by linarith
  show "m * (?y div m) < T + m" using eq assms by linarith
qed

text \<open>
  Claim C7, as amended.  For every \<open>n > 0\<close> that \<open>allocate\<close> accepts, with a power-of-two
  alignment: on the ARM path the size passed to \<open>aligned_alloc\<close> is the byte size
  \<open>n * sizeof(T)\<close> rounded up to the least multiple of the alignment, provided
  \<open>n * sizeof(T) + Alignment - 1\<close> fits \<open>size_t\<close>; on the x86 path the byte size is
  passed to \<open>_mm_malloc\<close> as it is, without rounding.
\<close>

theorem C7_request_rounding:
  assumes "sizeof_T \<noteq> 0" and "n \<noteq> 0" and "\<not> n > max_size sizeof_T"
    and "k < 64" and "unat n * unat sizeof_T + 2 ^ k - 1 < 2 ^ 64"
  shows "(\<exists>sz. platform_request ARM sizeof_T (2 ^ k) n = aligned_alloc (2 ^ k) sz
            \<and> 2 ^ k dvd unat sz
            \<and> unat n * unat sizeof_T \<le> unat sz
            \<and> unat sz < unat n * unat sizeof_T + 2 ^ k)
       \<and> platform_request X86 sizeof_T (2 ^ k) n = mm_malloc (n * sizeof_T) (2 ^ k)
       \<and> allocate pf os sizeof_T (2 ^ k) n =
           (if os (platform_request pf sizeof_T (2 ^ k) n) = 0 then Inl bad_alloc
            else Inr (os (platform_request pf sizeof_T (2 ^ k) n)))"
proof -
  let ?total = "n * sizeof_T"
  let ?sz = "(?total + 2 ^ k - 1) AND NOT (2 ^ k - 1)"
  have T: "unat ?total = unat n * unat sizeof_T" by (rule unat_total [OF assms(1,3)])
  have "unat (?total + 2 ^ k - 1) = unat ?total + 2 ^ k - 1"
    by (rule unat_rounded [OF assms(4)]) (use T assms(5) in simp)
  then have sz: "unat ?sz = 2 ^ k * ((unat n * unat sizeof_T + 2 ^ k - 1) div 2 ^ k)"
    by (simp add: unat_align_down T)
  have pos: "(0 :: nat) < 2 ^ k" by simp
  have "2 ^ k dvd unat ?sz" "unat n * unat sizeof_T \<le> unat ?sz" "unat ?sz < unat n * unat sizeof_T + 2 ^ k"
    unfolding sz by (rule round_up_nat [OF pos])+
  moreover have "platform_request ARM sizeof_T (2 ^ k) n = aligned_alloc (2 ^ k) ?sz"
    by (simp add: platform_request_def)
  moreover have "platform_request X86 sizeof_T (2 ^ k) n = mm_malloc ?total (2 ^ k)"
    by (simp add: platform_request_def)
  moreover have "allocate pf os sizeof_T (2 ^ k) n =
           (if os (platform_request pf sizeof_T (2 ^ k) n) = 0 then Inl bad_alloc
            else Inr (os (platform_request pf sizeof_T (2 ^ k) n)))"
    using assms(2,3) by (simp add: allocate_def Let_def)
  ultimately show ?thesis by blast
qed

theorem C7_request_rounding_witness:
  "(16 :: 64 word) \<noteq> 0 \<and> (3 :: 64 word) \<noteq> 0 \<and> \<not> (3 :: 64 word) > max_size 16
 \<and> (5 :: nat) < 64 \<and> unat (3 :: 64 word) * unat (16 :: 64 word) + 2 ^ 5 - 1 < (2 :: nat) ^ 64
 \<and> platform_request ARM 16 (2 ^ 5) 3 = aligned_alloc 32 64
 \<and> platform_request X86 16 (2 ^ 5) 3 = mm_malloc 48 32"
proof -
  have a: "(16 :: 64 word) \<noteq> 0" "(3 :: 64 word) \<noteq> 0" by simp_all
  have b: "\<not> (3 :: 64 word) > max_size 16" by (simp add: max_size_def)
  have c: "(5 :: nat) < 64" by simp
  have d: "unat (3 :: 64 word) * unat (16 :: 64 word) + 2 ^ 5 - 1 < (2 :: nat) ^ 64" by simp
  have e: "platform_request ARM 16 (2 ^ 5) 3 = aligned_alloc 32 64" by (simp add: platform_request_def)
  from C7_request_rounding [OF a b c d]
  have "platform_request X86 16 (2 ^ 5) 3 = mm_malloc (3 * 16) (2 ^ 5)" by blast
  then have f: "platform_request X86 16 (2 ^ 5) 3 = mm_malloc 48 32" by simp
  from a b c d e f show ?thesis by simp
qed

theorem C7_counterexample:
  "(3 :: 64 word) \<noteq> 0 \<and> \<not> (3 :: 64 word) > max_size 8
 \<and> platform_request X86 8 16 3 = mm_malloc 24 16
 \<and> \<not> (16 :: nat) dvd 24"
  by (simp add: max_size_def platform_request_def)

text \<open>
  Claim C8.  \<open>allocate(n)\<close> fails with \<open>length_error\<close> exactly when \<open>n * sizeof(T)\<close>
  does not fit \<open>size_t\<close>, which is exactly when \<open>n\<close> exceeds \<open>max_size()\<close>; it fails with
  \<open>bad_alloc\<close> exactly when it reaches the platform allocator (\<open>n\<close> is neither zero nor
  too large) and that returns the null pointer; and \<open>allocate(0)\<close> returns the null
  pointer without an error.
\<close>

theorem C8_allocate_failures:
  assumes "sizeof_T \<noteq> 0"
  shows "(allocate pf os sizeof_T Alignment n = Inl length_error
            \<longleftrightarrow> 2 ^ 64 \<le> unat n * unat sizeof_T)
       \<and> (n > max_size sizeof_T \<longleftrightarrow> 2 ^ 64 \<le> unat n * unat sizeof_T)
       \<and> (allocate pf os sizeof_T Alignment n = Inl bad_alloc
            \<longleftrightarrow> n \<noteq> 0 \<and> unat n * unat sizeof_T < 2 ^ 64
                \<and> os (platform_request pf sizeof_T Alignment n) = 0)
       \<and> allocate pf os sizeof_T Alignment 0 = Inr 0"
proof -
  note ex = exceeds_max_size_iff [OF assms, of n]
  have zero: "n = 0 \<Longrightarrow> unat n * unat sizeof_T < 2 ^ 64" by simp
  have a: "allocate pf os sizeof_T Alignment n = Inl length_error \<longleftrightarrow> 2 ^ 64 \<le> unat n * unat sizeof_T"
    using ex zero by (auto simp: allocate_def Let_def)
  have b: "allocate pf os sizeof_T Alignment n = Inl bad_alloc
            \<longleftrightarrow> n \<noteq> 0 \<and> unat n * unat sizeof_T < 2 ^ 64
                \<and> os (platform_request pf sizeof_T Alignment n) = 0"
    using ex by (auto simp: allocate_def Let_def)
  have c: "allocate pf os sizeof_T Alignment 0 = Inr 0" by (simp add: allocate_def)
  from a ex b c show ?thesis by blast
qed

theorem C8_allocate_failures_witness:
  "(16 :: 64 word) \<noteq> 0
 \<and> allocate ARM (\<lambda>call. 0) 16 16 1152921504606846976 = Inl length_error
 \<and> (1152921504606846976 :: 64 word) > max_size 16
 \<and> allocate X86 (\<lambda>call. 0) 16 16 5 = Inl bad_alloc
 \<and> allocate ARM (\<lambda>call. 0) 16 16 0 = Inr 0"
proof -
  have s: "(16 :: 64 word) \<noteq> 0" by simp
  have big: "(2 :: nat) ^ 64 \<le> unat (1152921504606846976 :: 64 word) * unat (16 :: 64 word)" by simp
  have small: "(5 :: 64 word) \<noteq> 0 \<and> unat (5 :: 64 word) * unat (16 :: 64 word) < 2 ^ 64" by simp
  from C8_allocate_failures [OF s, of ARM "\<lambda>call. 0" 16 1152921504606846976] big
  have a: "allocate ARM (\<lambda>call. 0) 16 16 1152921504606846976 = Inl length_error"
    and b: "(1152921504606846976 :: 64 word) > max_size 16"
    and d: "allocate ARM (\<lambda>call. 0) 16 16 0 = Inr 0"
    by blast+
  from C8_allocate_failures [OF s, of X86 "\<lambda>call. 0" 16 5] small
  have c: "allocate X86 (\<lambda>call. 0) 16 16 5 = Inl bad_alloc" by blast
  from s a b c d show ?thesis by blast
qed

end
